theory Spec2Isabelle
  imports Main "HOL-Library.Multiset"
begin

section \<open>Python values and exceptions used by ncbiTaxonomyTree.py\<close>

text \<open>
  The exceptions the module can raise are the ones of the Python built-ins it calls; the
  module defines no exception class of its own.
  \<^item> \<open>KeyError k\<close>: a dictionary lookup \<open>d[k]\<close> on a missing key;
  \<^item> \<open>IndexError\<close>: \<open>line[i]\<close> past the end of the list of fields (the message carries
    neither the index nor the line);
  \<^item> \<open>ValueError s\<close>: \<open>int(s)\<close> on a string that is no integer literal, and
    \<open>list.remove(x)\<close> when \<open>x\<close> is not in the list;
  \<^item> \<open>TypeError\<close>: iterating over an \<open>int\<close>, or using a list as a dictionary key.
\<close>

datatype error = KeyError int | IndexError | ValueError string | TypeError

text \<open>
  The tree node is \<open>namedtuple('Node', ['name', 'rank', 'parent', 'children'])\<close>;
  \<open>rank\<close> and \<open>parent\<close> may be \<open>None\<close>.
\<close>

record node =
  name :: string
  rank :: "string option"
  parent :: "int option"
  children :: "int list"

type_synonym dic = "int \<rightharpoonup> node"

text \<open>
  The lineage entry is \<open>namedtuple('Node', ['taxid', 'rank', 'name'])\<close>, a tuple.
\<close>

type_synonym level = "int \<times> string option \<times> string"

subsection \<open>Strings: \<open>str.split\<close>, the slice \<open>[1:-1]\<close>, \<open>int\<close>\<close>

text \<open>\<open>s.split(sep)\<close> for a one-character separator: never the empty list.\<close>

fun split :: "char \<Rightarrow> string \<Rightarrow> string list" where
  "split sep [] = [[]]"
| "split sep (c # cs) =
     (if c = sep then [] # split sep cs
      else (case split sep cs of
              [] \<Rightarrow> [[c]]
            | w # ws \<Rightarrow> (c # w) # ws))"

text \<open>\<open>s[1:-1]\<close>: drops the first and the last character; empty for a short string.\<close>

definition slice_1_m1 :: "string \<Rightarrow> string" where
  "slice_1_m1 s = butlast (drop 1 s)"

definition tab :: char where
  "tab = CHR 0x09"

definition newline :: char where
  "newline = CHR 0x0A"

text \<open>
  \<open>int(s)\<close> on a string (Python 2, base 10): surrounding white space is stripped, one sign
  is allowed, and at least one decimal digit must follow; anything else raises ValueError.
\<close>

definition is_space :: "char \<Rightarrow> bool" where
  "is_space c = (c \<in> set [CHR '' '', CHR 0x09, CHR 0x0A, CHR 0x0B, CHR 0x0C, CHR 0x0D])"

definition is_digit :: "char \<Rightarrow> bool" where
  "is_digit c = (c \<in> set ''0123456789'')"

definition digit_val :: "char \<Rightarrow> int" where
  "digit_val c = int (of_char c) - 48"

definition strip :: "string \<Rightarrow> string" where
  "strip s = rev (dropWhile is_space (rev (dropWhile is_space s)))"

definition digits_val :: "string \<Rightarrow> int" where
  "digits_val ds = foldl (\<lambda>acc c. 10 * acc + digit_val c) 0 ds"

definition unsigned_int :: "string \<Rightarrow> int option" where
  "unsigned_int ds = (if ds \<noteq> [] \<and> list_all is_digit ds then Some (digits_val ds) else None)"

definition py_int :: "string \<Rightarrow> error + int" where
  "py_int s =
     (case (case strip s of
              [] \<Rightarrow> None
            | c # cs \<Rightarrow>
                if c = CHR ''-'' then map_option uminus (unsigned_int cs)
                else if c = CHR ''+'' then unsigned_int cs
                else unsigned_int (c # cs)) of
        None \<Rightarrow> Inl (ValueError s)
      | Some n \<Rightarrow> Inr n)"

section \<open>Construction: \<open>NcbiTaxonomyTree.__init__\<close>\<close>

subsection \<open>names.dmp\<close>

text \<open>
  One iteration of \<open>for line in names_file\<close>. The test \<open>line[3] == ...\<close> raises
  IndexError on a line with fewer than four fields.
\<close>

definition names_line :: "(int \<rightharpoonup> string) \<Rightarrow> string \<Rightarrow> error + (int \<rightharpoonup> string)" where
  "names_line taxid2name l =
     (let line = split CHR ''|'' l in
      if length line \<le> 3 then Inl IndexError
      else if line ! 3 = tab # ''scientific name'' @ [tab] then
        (case py_int (line ! 0) of
           Inl e \<Rightarrow> Inl e
         | Inr taxid \<Rightarrow> Inr (taxid2name(taxid \<mapsto> slice_1_m1 (line ! 1))))
      else Inr taxid2name)"

fun names_loop :: "(int \<rightharpoonup> string) \<Rightarrow> string list \<Rightarrow> error + (int \<rightharpoonup> string)" where
  "names_loop taxid2name [] = Inr taxid2name"
| "names_loop taxid2name (l # ls) =
     (case names_line taxid2name l of
        Inl e \<Rightarrow> Inl e
      | Inr taxid2name' \<Rightarrow> names_loop taxid2name' ls)"

subsection \<open>nodes.dmp\<close>

text \<open>
  The second half of an iteration: \<open>self.dic[parent_taxid].children.append(taxid)\<close>, and
  in the \<open>except KeyError\<close> branch the placeholder node, whose name lookup can itself raise
  KeyError.
\<close>

definition attach_child :: "dic \<times> (int \<rightharpoonup> string) \<Rightarrow> int \<Rightarrow> int
    \<Rightarrow> error + dic \<times> (int \<rightharpoonup> string)" where
  "attach_child st taxid parent_taxid =
     (case st of (dic, taxid2name) \<Rightarrow>
        (case dic parent_taxid of
           Some p \<Rightarrow> Inr (dic(parent_taxid \<mapsto> p\<lparr>children := children p @ [taxid]\<rparr>), taxid2name)
         | None \<Rightarrow>
             (case taxid2name parent_taxid of
                None \<Rightarrow> Inl (KeyError parent_taxid)
              | Some nm \<Rightarrow>
                  Inr (dic(parent_taxid \<mapsto>
                         \<lparr>name = nm, rank = None, parent = None, children = [taxid]\<rparr>),
                       taxid2name(parent_taxid := None)))))"

text \<open>
  One iteration of \<open>for line in nodes_file\<close>, in the order in which the source evaluates:
  \<open>int(line[0])\<close>, \<open>line[1]\<close>, \<open>int(line[1])\<close>, the membership test, then
  \<open>taxid2name[taxid]\<close> (new node only) before \<open>line[2]\<close>.
\<close>

definition nodes_line :: "dic \<times> (int \<rightharpoonup> string) \<Rightarrow> string
    \<Rightarrow> error + dic \<times> (int \<rightharpoonup> string)" where
  "nodes_line st l =
     (case st of (dic, taxid2name) \<Rightarrow>
      let line = take 3 (split CHR ''|'' l) in
      (case py_int (line ! 0) of
         Inl e \<Rightarrow> Inl e
       | Inr taxid \<Rightarrow>
           if length line < 2 then Inl IndexError
           else
             (case py_int (line ! 1) of
                Inl e \<Rightarrow> Inl e
              | Inr parent_taxid \<Rightarrow>
                  (case dic taxid of
                     Some nd \<Rightarrow>
                       if length line < 3 then Inl IndexError
                       else attach_child
                              (dic(taxid \<mapsto> nd\<lparr>rank := Some (slice_1_m1 (line ! 2)),
                                                parent := Some parent_taxid\<rparr>),
                               taxid2name)
                              taxid parent_taxid
                   | None \<Rightarrow>
                       (case taxid2name taxid of
                          None \<Rightarrow> Inl (KeyError taxid)
                        | Some nm \<Rightarrow>
                            if length line < 3 then Inl IndexError
                            else attach_child
                                   (dic(taxid \<mapsto>
                                      \<lparr>name = nm, rank = Some (slice_1_m1 (line ! 2)),
                                       parent = Some parent_taxid, children = []\<rparr>),
                                    taxid2name(taxid := None))
                                   taxid parent_taxid)))))"

fun nodes_loop :: "dic \<times> (int \<rightharpoonup> string) \<Rightarrow> string list
    \<Rightarrow> error + dic \<times> (int \<rightharpoonup> string)" where
  "nodes_loop st [] = Inr st"
| "nodes_loop st (l # ls) =
     (case nodes_line st l of
        Inl e \<Rightarrow> Inl e
      | Inr st' \<Rightarrow> nodes_loop st' ls)"

subsection \<open>The root\<close>

text \<open>
  \<open>root_children = self.dic[1].children; root_children.remove(1)\<close>, then the root loses
  its parent. \<open>list.remove\<close> deletes the first occurrence and raises ValueError when there
  is none.
\<close>

definition fix_root :: "dic \<Rightarrow> error + dic" where
  "fix_root dic =
     (case dic 1 of
        None \<Rightarrow> Inl (KeyError 1)
      | Some r \<Rightarrow>
          if 1 \<in> set (children r)
          then Inr (dic(1 \<mapsto> r\<lparr>parent := None, children := remove1 1 (children r)\<rparr>))
          else Inl (ValueError ''list.remove(x): x not in list''))"

text \<open>
  The constructor, given the lines of the two files. An exception leaves the caller
  without an object: the result is the error alone.
\<close>

definition NcbiTaxonomyTree :: "string list \<Rightarrow> string list \<Rightarrow> error + dic" where
  "NcbiTaxonomyTree names_file nodes_file =
     (case names_loop Map.empty names_file of
        Inl e \<Rightarrow> Inl e
      | Inr taxid2name \<Rightarrow>
          (case nodes_loop (Map.empty, taxid2name) nodes_file of
             Inl e \<Rightarrow> Inl e
           | Inr (dic, rest) \<Rightarrow> fix_root dic))"

section \<open>Point queries\<close>

text \<open>
  Every batch query has the shape
  \<^verbatim>\<open>result = {}; for taxid in taxids: result[taxid] = body(taxid); return result\<close>.
  An exception in the body leaves the loop and the function: the dictionary built so far
  is a local variable and is lost.
\<close>

fun collect :: "(int \<Rightarrow> error + 'v) \<Rightarrow> int list \<Rightarrow> (int \<rightharpoonup> 'v) \<Rightarrow> error + (int \<rightharpoonup> 'v)" where
  "collect body [] result = Inr result"
| "collect body (taxid # taxids) result =
     (case body taxid of
        Inl e \<Rightarrow> Inl e
      | Inr v \<Rightarrow> collect body taxids (result(taxid \<mapsto> v)))"

text \<open>\<open>self.dic[taxid]\<close>\<close>

definition lookup :: "dic \<Rightarrow> int \<Rightarrow> error + node" where
  "lookup dic taxid = (case dic taxid of None \<Rightarrow> Inl (KeyError taxid) | Some nd \<Rightarrow> Inr nd)"

definition getParent :: "dic \<Rightarrow> int list \<Rightarrow> error + (int \<rightharpoonup> int option)" where
  "getParent dic taxids = collect (\<lambda>taxid. map_sum id parent (lookup dic taxid)) taxids Map.empty"

definition getRank :: "dic \<Rightarrow> int list \<Rightarrow> error + (int \<rightharpoonup> string option)" where
  "getRank dic taxids = collect (\<lambda>taxid. map_sum id rank (lookup dic taxid)) taxids Map.empty"

definition getChildren :: "dic \<Rightarrow> int list \<Rightarrow> error + (int \<rightharpoonup> int list)" where
  "getChildren dic taxids =
     collect (\<lambda>taxid. map_sum id children (lookup dic taxid)) taxids Map.empty"

definition getName :: "dic \<Rightarrow> int list \<Rightarrow> error + (int \<rightharpoonup> string)" where
  "getName dic taxids = collect (\<lambda>taxid. map_sum id name (lookup dic taxid)) taxids Map.empty"

section \<open>Ascendants\<close>

text \<open>
  Functions that may not return have a result of type \<open>(error + 'a) option\<close>: \<open>None\<close> is
  the run that never returns, \<open>Some (Inl e)\<close> the exception, \<open>Some (Inr v)\<close> the value.
  The same loop as \<open>collect\<close>, for such a body:
\<close>

fun collect_partial :: "(int \<Rightarrow> (error + 'v) option) \<Rightarrow> int list \<Rightarrow> (int \<rightharpoonup> 'v)
    \<Rightarrow> (error + (int \<rightharpoonup> 'v)) option" where
  "collect_partial body [] result = Some (Inr result)"
| "collect_partial body (taxid # taxids) result =
     (case body taxid of
        None \<Rightarrow> None
      | Some (Inl e) \<Rightarrow> Some (Inl e)
      | Some (Inr v) \<Rightarrow> collect_partial body taxids (result(taxid \<mapsto> v)))"

text \<open>
  \<^verbatim>\<open>while self.dic[taxid].parent is not None:
    taxid = self.dic[taxid].parent
    lineage.append(Node(taxid, self.dic[taxid].rank, self.dic[taxid].name))\<close>
  The loop has no counter and no set of visited nodes.
\<close>

partial_function (option) ascend :: "dic \<Rightarrow> int \<Rightarrow> level list \<Rightarrow> (error + level list) option" where
  "ascend dic taxid lineage =
     (case dic taxid of
        None \<Rightarrow> Some (Inl (KeyError taxid))
      | Some nd \<Rightarrow>
          (case parent nd of
             None \<Rightarrow> Some (Inr lineage)
           | Some p \<Rightarrow>
               (case dic p of
                  None \<Rightarrow> Some (Inl (KeyError p))
                | Some pn \<Rightarrow> ascend dic p (lineage @ [(p, rank pn, name pn)]))))"

definition standard_ranks :: "string list" where
  "standard_ranks = [''species'', ''genus'', ''family'', ''order'', ''class'',
                     ''phylum'', ''superkingdom'']"

text \<open>\<open>lvl.rank in self.standard_ranks\<close>; the rank \<open>None\<close> is in no list of strings.\<close>

definition is_std :: "level \<Rightarrow> bool" where
  "is_std lvl = (case fst (snd lvl) of None \<Rightarrow> False | Some r \<Rightarrow> r \<in> set standard_ranks)"

text \<open>The \<open>if only_std_ranks:\<close> block; \<open>lineage[0]\<close> raises IndexError on the empty list.\<close>

definition std_only :: "level list \<Rightarrow> error + level list" where
  "std_only lineage =
     (let std_lineage = filter is_std lineage in
      case lineage of
        [] \<Rightarrow> Inl IndexError
      | l0 # _ \<Rightarrow>
          if fst (snd l0) = Some ''no rank'' then Inr (l0 # std_lineage)
          else Inr std_lineage)"

definition priv_getAscendantsWithRanksAndNames :: "dic \<Rightarrow> int \<Rightarrow> bool
    \<Rightarrow> (error + level list) option" where
  "priv_getAscendantsWithRanksAndNames dic taxid only_std_ranks =
     (case dic taxid of
        None \<Rightarrow> Some (Inl (KeyError taxid))
      | Some nd \<Rightarrow>
          (case ascend dic taxid [(taxid, rank nd, name nd)] of
             None \<Rightarrow> None
           | Some (Inl e) \<Rightarrow> Some (Inl e)
           | Some (Inr lineage) \<Rightarrow>
               if only_std_ranks then Some (std_only lineage) else Some (Inr lineage)))"

definition getAscendantsWithRanksAndNames :: "dic \<Rightarrow> int list \<Rightarrow> bool
    \<Rightarrow> (error + (int \<rightharpoonup> level list)) option" where
  "getAscendantsWithRanksAndNames dic taxids only_std_ranks =
     collect_partial (\<lambda>taxid. priv_getAscendantsWithRanksAndNames dic taxid only_std_ranks)
       taxids Map.empty"

section \<open>Descendants and leaves\<close>

text \<open>
  The recursive helpers return either a bare taxid or a list nested to any depth.
\<close>

datatype pyval = PInt int | PList "pyval list"

text \<open>
  \<open>flatten(seq)\<close> starts with \<open>for elt in seq\<close>, which raises TypeError when \<open>seq\<close> is
  an \<open>int\<close>. The recursive call is made on lists only.
\<close>

fun flatten_elts :: "pyval list \<Rightarrow> int list" where
  "flatten_elts [] = []"
| "flatten_elts (PInt n # elts) = n # flatten_elts elts"
| "flatten_elts (PList sub # elts) = flatten_elts sub @ flatten_elts elts"

definition flatten :: "pyval \<Rightarrow> error + int list" where
  "flatten seq = (case seq of PInt n \<Rightarrow> Inl TypeError | PList elts \<Rightarrow> Inr (flatten_elts elts))"

text \<open>
  \<open>[f(child) for child in children]\<close>: the calls are made from left to right and the
  first one that fails ends the comprehension.
\<close>

fun comprehension :: "(int \<Rightarrow> (error + 'a) option) \<Rightarrow> int list \<Rightarrow> (error + 'a list) option" where
  "comprehension f [] = Some (Inr [])"
| "comprehension f (child # rest) =
     (case f child of
        None \<Rightarrow> None
      | Some (Inl e) \<Rightarrow> Some (Inl e)
      | Some (Inr v) \<Rightarrow>
          (case comprehension f rest of
             None \<Rightarrow> None
           | Some (Inl e) \<Rightarrow> Some (Inl e)
           | Some (Inr vs) \<Rightarrow> Some (Inr (v # vs))))"

text \<open>
  \<open>_getDescendants\<close> calls itself once per level of the tree. The first argument bounds
  the depth of the recursion; \<open>None\<close> means the bound was reached (on a cyclic
  \<open>children\<close> relation every bound is).
\<close>

fun priv_getDescendants :: "nat \<Rightarrow> dic \<Rightarrow> int \<Rightarrow> (error + pyval) option" where
  "priv_getDescendants 0 dic taxid = None"
| "priv_getDescendants (Suc depth) dic taxid =
     (case dic taxid of
        None \<Rightarrow> Some (Inl (KeyError taxid))
      | Some nd \<Rightarrow>
          if children nd \<noteq> [] then
            (case comprehension (priv_getDescendants depth dic) (children nd) of
               None \<Rightarrow> None
             | Some (Inl e) \<Rightarrow> Some (Inl e)
             | Some (Inr result) \<Rightarrow> Some (Inr (PList (PInt taxid # result))))
          else Some (Inr (PInt taxid)))"

definition getDescendants :: "nat \<Rightarrow> dic \<Rightarrow> int list \<Rightarrow> (error + (int \<rightharpoonup> int list)) option" where
  "getDescendants depth dic taxids =
     collect_partial
       (\<lambda>taxid. case priv_getDescendants depth dic taxid of
                  None \<Rightarrow> None
                | Some (Inl e) \<Rightarrow> Some (Inl e)
                | Some (Inr nested) \<Rightarrow> Some (flatten nested))
       taxids Map.empty"

text \<open>
  \<open>[Node(descendant, self.dic[descendant].rank, self.dic[descendant].name)
     for descendant in self._getDescendants(taxid)]\<close>:
  the nested result is iterated as it is. A list cannot be a dictionary key
  (TypeError: unhashable type).
\<close>

fun with_ranks_and_names :: "dic \<Rightarrow> pyval list \<Rightarrow> error + level list" where
  "with_ranks_and_names dic [] = Inr []"
| "with_ranks_and_names dic (PList sub # elts) = Inl TypeError"
| "with_ranks_and_names dic (PInt descendant # elts) =
     (case dic descendant of
        None \<Rightarrow> Inl (KeyError descendant)
      | Some nd \<Rightarrow>
          (case with_ranks_and_names dic elts of
             Inl e \<Rightarrow> Inl e
           | Inr lvls \<Rightarrow> Inr ((descendant, rank nd, name nd) # lvls)))"

definition getDescendantsWithRanksAndNames :: "nat \<Rightarrow> dic \<Rightarrow> int list
    \<Rightarrow> (error + (int \<rightharpoonup> level list)) option" where
  "getDescendantsWithRanksAndNames depth dic taxids =
     collect_partial
       (\<lambda>taxid. case priv_getDescendants depth dic taxid of
                  None \<Rightarrow> None
                | Some (Inl e) \<Rightarrow> Some (Inl e)
                | Some (Inr (PInt n)) \<Rightarrow> Some (Inl TypeError)
                | Some (Inr (PList elts)) \<Rightarrow> Some (with_ranks_and_names dic elts))
       taxids Map.empty"

text \<open>
  \<open>_getLeaves\<close>: the list of the children's results, or the bare taxid of a childless node.
\<close>

fun priv_getLeaves :: "nat \<Rightarrow> dic \<Rightarrow> int \<Rightarrow> (error + pyval) option" where
  "priv_getLeaves 0 dic taxid = None"
| "priv_getLeaves (Suc depth) dic taxid =
     (case dic taxid of
        None \<Rightarrow> Some (Inl (KeyError taxid))
      | Some nd \<Rightarrow>
          if children nd \<noteq> [] then
            (case comprehension (priv_getLeaves depth dic) (children nd) of
               None \<Rightarrow> None
             | Some (Inl e) \<Rightarrow> Some (Inl e)
             | Some (Inr result) \<Rightarrow> Some (Inr (PList result)))
          else Some (Inr (PInt taxid)))"

text \<open>\<open>getLeaves\<close> tests \<open>isinstance(result, Iterable)\<close> before it flattens.\<close>

definition getLeaves :: "nat \<Rightarrow> dic \<Rightarrow> int \<Rightarrow> (error + int list) option" where
  "getLeaves depth dic taxid =
     (case priv_getLeaves depth dic taxid of
        None \<Rightarrow> None
      | Some (Inl e) \<Rightarrow> Some (Inl e)
      | Some (Inr (PInt n)) \<Rightarrow> Some (Inr [n])
      | Some (Inr (PList elts)) \<Rightarrow> Some (flatten (PList elts)))"

section \<open>A small taxonomy: the two files\<close>

text \<open>
  Lines in the layout of the NCBI dump files: fields separated by tab, bar, tab, and
  each line closed by tab, bar, newline.
\<close>

definition names_rec :: "string \<Rightarrow> string \<Rightarrow> string" where
  "names_rec i nm =
     i @ tab # ''|'' @ tab # nm @ tab # ''|'' @ tab # tab # ''|'' @
     tab # ''scientific name'' @ tab # ''|'' @ [newline]"

definition nodes_rec :: "string \<Rightarrow> string \<Rightarrow> string \<Rightarrow> string" where
  "nodes_rec i p r =
     i @ tab # ''|'' @ tab # p @ tab # ''|'' @ tab # r @ tab # ''|'' @ [newline]"

definition ex_names :: "string list" where
  "ex_names = [names_rec ''1'' ''root'', names_rec ''543'' ''Enterobacteriaceae'',
               names_rec ''561'' ''Escherichia'', names_rec ''562'' ''Escherichia coli'']"

definition rec_1 :: string where "rec_1 = nodes_rec ''1'' ''1'' ''no rank''"
definition rec_543 :: string where "rec_543 = nodes_rec ''543'' ''1'' ''family''"
definition rec_561 :: string where "rec_561 = nodes_rec ''561'' ''543'' ''genus''"
definition rec_562 :: string where "rec_562 = nodes_rec ''562'' ''561'' ''species''"

definition ex_tree :: dic where
  "ex_tree =
     [1 \<mapsto> \<lparr>name = ''root'', rank = Some ''no rank'', parent = None, children = [543]\<rparr>,
      543 \<mapsto> \<lparr>name = ''Enterobacteriaceae'', rank = Some ''family'', parent = Some 1,
              children = [561]\<rparr>,
      561 \<mapsto> \<lparr>name = ''Escherichia'', rank = Some ''genus'', parent = Some 543,
              children = [562]\<rparr>,
      562 \<mapsto> \<lparr>name = ''Escherichia coli'', rank = Some ''species'', parent = Some 561,
              children = []\<rparr>]"

section \<open>The tree invariant\<close>

text \<open>
  The parent relation of a dictionary, as pairs (parent, child), and the nodes without a
  parent.
\<close>

definition parent_rel :: "dic \<Rightarrow> (int \<times> int) set" where
  "parent_rel dic = {(p, c). \<exists>nd. dic c = Some nd \<and> parent nd = Some p}"

definition is_root :: "dic \<Rightarrow> int \<Rightarrow> bool" where
  "is_root dic r = (case dic r of None \<Rightarrow> False | Some nd \<Rightarrow> parent nd = None)"

text \<open>
  A finite dictionary with exactly one root, no cycle among the parent links, and every
  parent a key of the dictionary.
\<close>

definition tree_inv :: "dic \<Rightarrow> bool" where
  "tree_inv dic =
     (finite (dom dic) \<and> (\<exists>!r. is_root dic r) \<and> acyclic (parent_rel dic) \<and>
      (\<forall>c nd p. dic c = Some nd \<and> parent nd = Some p \<longrightarrow> p \<in> dom dic))"

text \<open>
  \<open>links dic c lvls\<close>: the entries \<open>lvls\<close> are the nodes met from \<open>c\<close> upwards, each the
  parent of the one before, with its own rank and name.
\<close>

fun links :: "dic \<Rightarrow> int \<Rightarrow> level list \<Rightarrow> bool" where
  "links dic c [] = True"
| "links dic c (lvl # rest) =
     (case dic c of
        None \<Rightarrow> False
      | Some cn \<Rightarrow>
          parent cn = Some (fst lvl) \<and>
          (case dic (fst lvl) of
             None \<Rightarrow> False
           | Some pn \<Rightarrow> snd lvl = (rank pn, name pn) \<and> links dic (fst lvl) rest))"

section \<open>A taxonomy with a cycle\<close>

text \<open>
  Taxids 2 and 3 name each other as parent; the root's record is as usual.
\<close>

definition cyc_names :: "string list" where
  "cyc_names = [names_rec ''1'' ''root'', names_rec ''2'' ''two'', names_rec ''3'' ''three'']"

definition cyc_nodes :: "string list" where
  "cyc_nodes = [rec_1, nodes_rec ''2'' ''3'' ''genus'', nodes_rec ''3'' ''2'' ''species'']"

definition cyc_tree :: dic where
  "cyc_tree =
     [1 \<mapsto> \<lparr>name = ''root'', rank = Some ''no rank'', parent = None, children = []\<rparr>,
      2 \<mapsto> \<lparr>name = ''two'', rank = Some ''genus'', parent = Some 3, children = [3]\<rparr>,
      3 \<mapsto> \<lparr>name = ''three'', rank = Some ''species'', parent = Some 2, children = [2]\<rparr>]"

section \<open>The edge records of a stream\<close>

text \<open>
  The pair \<open>(taxid, parent_taxid)\<close> that an iteration of the nodes loop reads from a line,
  when both \<open>int(line[0])\<close> and \<open>int(line[1])\<close> succeed.
\<close>

definition edge_of :: "string \<Rightarrow> (int \<times> int) option" where
  "edge_of l =
     (let line = take 3 (split CHR ''|'' l) in
      case py_int (line ! 0) of
        Inl e \<Rightarrow> None
      | Inr taxid \<Rightarrow>
          if length line < 2 then None
          else (case py_int (line ! 1) of
                  Inl e \<Rightarrow> None
                | Inr parent_taxid \<Rightarrow> Some (taxid, parent_taxid)))"

definition edges :: "string list \<Rightarrow> (int \<times> int) list" where
  "edges ls = List.map_filter edge_of ls"

text \<open>The child list and the parent of a taxid, read through the dictionary.\<close>

definition children_of :: "dic \<Rightarrow> int \<Rightarrow> int list" where
  "children_of dic k = (case dic k of None \<Rightarrow> [] | Some nd \<Rightarrow> children nd)"

definition parent_of :: "dic \<Rightarrow> int \<Rightarrow> int option" where
  "parent_of dic k = (case dic k of None \<Rightarrow> None | Some nd \<Rightarrow> parent nd)"

section \<open>An edge stream with a parent that has no record of its own\<close>

text \<open>
  Taxid 3 is named as the parent of 2 and never appears as the taxid of a record.
\<close>

definition ph_nodes :: "string list" where
  "ph_nodes = [rec_1, nodes_rec ''2'' ''3'' ''genus'']"

definition ph_tree :: dic where
  "ph_tree =
     [1 \<mapsto> \<lparr>name = ''root'', rank = Some ''no rank'', parent = None, children = []\<rparr>,
      2 \<mapsto> \<lparr>name = ''two'', rank = Some ''genus'', parent = Some 3, children = []\<rparr>,
      3 \<mapsto> \<lparr>name = ''three'', rank = None, parent = None, children = [2]\<rparr>]"

section \<open>Malformed edge records\<close>

text \<open>
  A line of nodes.dmp with fewer than three fields, or whose first or second field is
  not an integer literal.
\<close>

definition malformed :: "string \<Rightarrow> bool" where
  "malformed l =
     (let line = split CHR ''|'' l in
      length line < 3 \<or> isl (py_int (line ! 0)) \<or> isl (py_int (line ! 1)))"

text \<open>A record cut off after its second field.\<close>

definition two_fields :: "string \<Rightarrow> string \<Rightarrow> string" where
  "two_fields i p = i @ tab # ''|'' @ tab # p"

section \<open>The subtree of a node, in preorder\<close>

text \<open>
  The enumeration the specification asks of \<open>getDescendants\<close>: the node itself, then the
  subtree of each child in child-list order. The first argument bounds the depth, as for
  \<open>priv_getDescendants\<close>.
\<close>

fun preorder :: "nat \<Rightarrow> dic \<Rightarrow> int \<Rightarrow> int list" where
  "preorder 0 dic taxid = []"
| "preorder (Suc depth) dic taxid =
     taxid # concat (map (preorder depth dic) (children_of dic taxid))"

section \<open>Parsed records, and the tree they determine\<close>

text \<open>
  The triple \<open>(taxid, parent_taxid, rank)\<close> that an iteration of the nodes loop reads from
  a line with at least three fields and integer literals in the first two.
\<close>

definition record_of :: "string \<Rightarrow> (int \<times> int \<times> string) option" where
  "record_of l =
     (let line = take 3 (split CHR ''|'' l) in
      case edge_of l of
        None \<Rightarrow> None
      | Some (taxid, parent_taxid) \<Rightarrow>
          if length line < 3 then None
          else Some (taxid, parent_taxid, slice_1_m1 (line ! 2)))"

definition records :: "string list \<Rightarrow> (int \<times> int \<times> string) list" where
  "records ls = List.map_filter record_of ls"

definition rank_of :: "dic \<Rightarrow> int \<Rightarrow> string option" where
  "rank_of dic k = (case dic k of None \<Rightarrow> None | Some nd \<Rightarrow> rank nd)"

text \<open>
  The loop keeps the names it has not used yet in \<open>taxid2name\<close>: a taxid without node
  still has its entry of the name table, a taxid with a node carries that name.
\<close>

definition names_kept :: "(int \<rightharpoonup> string) \<Rightarrow> dic \<times> (int \<rightharpoonup> string) \<Rightarrow> bool" where
  "names_kept names st =
     (case st of (dic, taxid2name) \<Rightarrow>
        \<forall>k. (case dic k of
                None \<Rightarrow> taxid2name k = names k
              | Some nd \<Rightarrow> names k = Some (name nd)))"

text \<open>
  The children of \<open>k\<close> in the order in which their records arrive, the root's reference to
  itself apart.
\<close>

definition arrivals :: "(int \<times> int) list \<Rightarrow> int \<Rightarrow> int list" where
  "arrivals E k = map fst (filter (\<lambda>e. snd e = k \<and> fst e \<noteq> 1) E)"

text \<open>
  The dictionary that a name table and a list of records with distinct taxids determine:
  one node per taxid that appears, with its name, the rank and parent of its own record
  (none for a taxid that only appears as a parent, no parent for the root 1), and its
  children in order of arrival.
\<close>

definition tree_of :: "(int \<rightharpoonup> string) \<Rightarrow> (int \<times> int \<times> string) list \<Rightarrow> dic" where
  "tree_of names R k =
     (if k \<in> fst ` set R \<union> (fst \<circ> snd) ` set R
      then Some \<lparr>name = the (names k),
                 rank = map_option snd (map_of R k),
                 parent = (if k = 1 then None else map_option fst (map_of R k)),
                 children = arrivals (map (\<lambda>r. (fst r, fst (snd r))) R) k\<rparr>
      else None)"

text \<open>A line that parses to a record whose taxid and parent both have a name.\<close>

definition named_record :: "(int \<rightharpoonup> string) \<Rightarrow> string \<Rightarrow> bool" where
  "named_record names l =
     (case record_of l of
        None \<Rightarrow> False
      | Some rec \<Rightarrow> names (fst rec) \<noteq> None \<and> names (fst (snd rec)) \<noteq> None)"

section \<open>Two siblings in either order\<close>

definition rec_2 :: string where "rec_2 = nodes_rec ''2'' ''1'' ''genus''"
definition rec_3 :: string where "rec_3 = nodes_rec ''3'' ''1'' ''genus''"

definition sib_tree_23 :: dic where
  "sib_tree_23 =
     [1 \<mapsto> \<lparr>name = ''root'', rank = Some ''no rank'', parent = None, children = [2, 3]\<rparr>,
      2 \<mapsto> \<lparr>name = ''two'', rank = Some ''genus'', parent = Some 1, children = []\<rparr>,
      3 \<mapsto> \<lparr>name = ''three'', rank = Some ''genus'', parent = Some 1, children = []\<rparr>]"

definition sib_tree_32 :: dic where
  "sib_tree_32 =
     [1 \<mapsto> \<lparr>name = ''root'', rank = Some ''no rank'', parent = None, children = [3, 2]\<rparr>,
      2 \<mapsto> \<lparr>name = ''two'', rank = Some ''genus'', parent = Some 1, children = []\<rparr>,
      3 \<mapsto> \<lparr>name = ''three'', rank = Some ''genus'', parent = Some 1, children = []\<rparr>]"

section \<open>Evaluating the example\<close>

lemmas parse_defs = split.simps tab_def newline_def py_int_def strip_def is_space_def
  unsigned_int_def is_digit_def digits_val_def digit_val_def slice_1_m1_def

lemmas build_defs = NcbiTaxonomyTree_def nodes_line_def names_line_def attach_child_def
  fix_root_def

lemmas ex_defs = names_rec_def nodes_rec_def ex_names_def rec_1_def rec_543_def rec_561_def
  rec_562_def

lemma ex_names_parsed:
  "names_loop Map.empty ex_names =
     Inr [1 \<mapsto> ''root'', 543 \<mapsto> ''Enterobacteriaceae'', 561 \<mapsto> ''Escherichia'',
          562 \<mapsto> ''Escherichia coli'']"
  by (simp add: ex_defs names_line_def parse_defs)

lemma nodes_loop_append:
  "nodes_loop st (xs @ ys) =
     (case nodes_loop st xs of Inl e \<Rightarrow> Inl e | Inr st' \<Rightarrow> nodes_loop st' ys)"
  by (induction xs arbitrary: st) (auto split: sum.splits)

lemma build_sorted: "NcbiTaxonomyTree ex_names [rec_1, rec_543, rec_561, rec_562] = Inr ex_tree"
  unfolding ex_tree_def by (simp add: ex_defs build_defs parse_defs) (rule ext, simp)

lemma build_root_last:
  "NcbiTaxonomyTree ex_names [rec_561, rec_543, rec_562, rec_1] = Inr ex_tree"
  unfolding ex_tree_def by (simp add: ex_defs build_defs parse_defs) (rule ext, simp)

lemma build_root_first:
  "NcbiTaxonomyTree ex_names [rec_1, rec_561, rec_543, rec_562] = Inr ex_tree"
  unfolding ex_tree_def by (simp add: ex_defs build_defs parse_defs) (rule ext, simp)

lemma build_root_second:
  "NcbiTaxonomyTree ex_names [rec_561, rec_1, rec_543, rec_562] = Inr ex_tree"
  unfolding ex_tree_def by (simp add: ex_defs build_defs parse_defs) (rule ext, simp)

lemma build_root_third:
  "NcbiTaxonomyTree ex_names [rec_561, rec_543, rec_1, rec_562] = Inr ex_tree"
  unfolding ex_tree_def by (simp add: ex_defs build_defs parse_defs) (rule ext, simp)

section \<open>The batch loop\<close>

lemma collect_returns:
  "(\<And>x. x \<in> set taxids \<Longrightarrow> body x = Inr (g x)) \<Longrightarrow>
     collect body taxids result = Inr (\<lambda>k. if k \<in> set taxids then Some (g k) else result k)"
proof (induction taxids arbitrary: result)
  case Nil
  show ?case by simp
next
  case (Cons x xs)
  have bx: "body x = Inr (g x)" by (rule Cons.prems) simp
  have ih: "collect body xs (result(x \<mapsto> g x))
      = Inr (\<lambda>k. if k \<in> set xs then Some (g k) else (result(x \<mapsto> g x)) k)"
    by (rule Cons.IH) (simp add: Cons.prems)
  have eq: "(\<lambda>k. if k \<in> set xs then Some (g k) else (result(x \<mapsto> g x)) k)
          = (\<lambda>k. if k \<in> set (x # xs) then Some (g k) else result k)"
    by (rule ext) simp
  show ?case unfolding collect.simps bx sum.case ih eq ..
qed

lemma collect_raises:
  "x \<in> set taxids \<Longrightarrow> isl (body x) \<Longrightarrow>
     \<exists>k e. k \<in> set taxids \<and> body k = Inl e \<and> collect body taxids result = Inl e"
proof (induction taxids arbitrary: result)
  case Nil
  then show ?case by simp
next
  case (Cons y ys)
  show ?case
  proof (cases "body y")
    case (Inl e)
    then have "y \<in> set (y # ys) \<and> body y = Inl e \<and> collect body (y # ys) result = Inl e"
      by simp
    then show ?thesis by blast
  next
    case (Inr v)
    with Cons.prems have "x \<in> set ys" by auto
    from Cons.IH [OF this Cons.prems(2)] obtain k e where
      "k \<in> set ys" "body k = Inl e" "collect body ys (result(y \<mapsto> v)) = Inl e"
      by blast
    with Inr have "k \<in> set (y # ys) \<and> body k = Inl e \<and> collect body (y # ys) result = Inl e"
      by simp
    then show ?thesis by blast
  qed
qed

lemma point_query_returns:
  assumes "set taxids \<subseteq> dom dic"
  shows "collect (\<lambda>taxid. map_sum id f (lookup dic taxid)) taxids Map.empty
           = Inr (\<lambda>k. if k \<in> set taxids then map_option f (dic k) else None)"
proof -
  have body: "\<And>x. x \<in> set taxids \<Longrightarrow>
      map_sum id f (lookup dic x) = Inr (f (the (dic x)))"
  proof -
    fix x assume "x \<in> set taxids"
    with assms obtain nd where "dic x = Some nd" by blast
    then show "map_sum id f (lookup dic x) = Inr (f (the (dic x)))"
      by (simp add: lookup_def)
  qed
  have eq: "(\<lambda>k. if k \<in> set taxids then Some (f (the (dic k))) else None)
          = (\<lambda>k. if k \<in> set taxids then map_option f (dic k) else None)"
  proof (rule ext)
    fix k
    show "(if k \<in> set taxids then Some (f (the (dic k))) else None)
        = (if k \<in> set taxids then map_option f (dic k) else None)"
    proof (cases "k \<in> set taxids")
      case True
      with assms obtain nd where "dic k = Some nd" by blast
      with True show ?thesis by simp
    next
      case False
      then show ?thesis by simp
    qed
  qed
  have "collect (\<lambda>taxid. map_sum id f (lookup dic taxid)) taxids Map.empty
      = Inr (\<lambda>k. if k \<in> set taxids then Some (f (the (dic k))) else Map.empty k)"
    by (rule collect_returns) (rule body)
  then show ?thesis unfolding eq by simp
qed

lemma point_query_raises:
  assumes "\<not> set taxids \<subseteq> dom dic"
  shows "\<exists>k. k \<in> set taxids \<and> dic k = None \<and>
           collect (\<lambda>taxid. map_sum id f (lookup dic taxid)) taxids Map.empty
             = Inl (KeyError k)"
proof -
  from assms obtain x where x: "x \<in> set taxids" "dic x = None" by blast
  then have "isl (map_sum id f (lookup dic x))" by (simp add: lookup_def)
  from collect_raises [of x taxids "\<lambda>taxid. map_sum id f (lookup dic taxid)", OF x(1) this]
  obtain k e where k: "k \<in> set taxids" "map_sum id f (lookup dic k) = Inl e"
    "collect (\<lambda>taxid. map_sum id f (lookup dic taxid)) taxids Map.empty = Inl e"
    by blast
  from k(2) have "dic k = None \<and> e = KeyError k"
    by (cases "dic k") (simp_all add: lookup_def)
  with k show ?thesis by blast
qed

lemma dom_restricted:
  "set taxids \<subseteq> dom dic \<Longrightarrow>
     dom (\<lambda>k. if k \<in> set taxids then map_option f (dic k) else None) = set taxids"
  by (auto simp: dom_def split: if_splits)

lemma collect_partial_returns:
  "(\<And>x. x \<in> set taxids \<Longrightarrow> body x = Some (Inr (g x))) \<Longrightarrow>
     collect_partial body taxids result
       = Some (Inr (\<lambda>k. if k \<in> set taxids then Some (g k) else result k))"
proof (induction taxids arbitrary: result)
  case Nil
  show ?case by simp
next
  case (Cons x xs)
  have bx: "body x = Some (Inr (g x))" by (rule Cons.prems) simp
  have ih: "collect_partial body xs (result(x \<mapsto> g x))
      = Some (Inr (\<lambda>k. if k \<in> set xs then Some (g k) else (result(x \<mapsto> g x)) k))"
    by (rule Cons.IH) (simp add: Cons.prems)
  have eq: "(\<lambda>k. if k \<in> set xs then Some (g k) else (result(x \<mapsto> g x)) k)
          = (\<lambda>k. if k \<in> set (x # xs) then Some (g k) else result k)"
    by (rule ext) simp
  show ?case unfolding collect_partial.simps bx option.case sum.case ih eq ..
qed

lemma collect_partial_bodies:
  "collect_partial body taxids result = Some (Inr m) \<Longrightarrow>
     x \<in> set taxids \<Longrightarrow> \<exists>v. body x = Some (Inr v)"
proof (induction taxids arbitrary: result)
  case Nil
  then show ?case by simp
next
  case (Cons y ys)
  from Cons.prems(1) obtain v where v: "body y = Some (Inr v)"
    by (cases "body y") (auto split: sum.splits)
  with Cons.prems(1) have rest: "collect_partial body ys (result(y \<mapsto> v)) = Some (Inr m)"
    by simp
  show ?case
  proof (cases "x = y")
    case True
    with v show ?thesis by simp
  next
    case False
    with Cons.prems(2) have "x \<in> set ys" by simp
    with rest show ?thesis by (rule Cons.IH)
  qed
qed

lemma collect_partial_same_set:
  assumes "collect_partial body xs result = Some (Inr m)" and "set ys = set xs"
  shows "collect_partial body ys result = Some (Inr m) \<and> dom m = dom result \<union> set xs"
proof -
  let ?g = "\<lambda>x. projr (the (body x))"
  let ?m = "\<lambda>zs k. if k \<in> set zs then Some (?g k) else result k"
  have b: "\<And>x. x \<in> set xs \<Longrightarrow> body x = Some (Inr (?g x))"
  proof -
    fix x assume "x \<in> set xs"
    with assms(1) obtain v where "body x = Some (Inr v)"
      using collect_partial_bodies by blast
    then show "body x = Some (Inr (?g x))" by simp
  qed
  have "collect_partial body xs result = Some (Inr (?m xs))"
    by (rule collect_partial_returns) (rule b)
  with assms(1) have m: "m = ?m xs" by simp
  have "collect_partial body ys result = Some (Inr (?m ys))"
    by (rule collect_partial_returns) (rule b, simp add: assms(2))
  then have "collect_partial body ys result = Some (Inr m)"
    unfolding m assms(2) .
  moreover have "dom (?m xs) = dom result \<union> set xs"
    by (auto simp: dom_def)
  ultimately show ?thesis unfolding m by blast
qed

lemma collect_partial_dedup:
  assumes "set ys = set xs"
  shows "(collect_partial body xs Map.empty = Some (Inr m))
           = (collect_partial body ys Map.empty = Some (Inr m))"
    and "collect_partial body xs Map.empty = Some (Inr m) \<Longrightarrow> dom m = set xs"
proof -
  show "(collect_partial body xs Map.empty = Some (Inr m))
           = (collect_partial body ys Map.empty = Some (Inr m))"
    using collect_partial_same_set [of body xs Map.empty m ys]
      collect_partial_same_set [of body ys Map.empty m xs] assms by blast
  show "collect_partial body xs Map.empty = Some (Inr m) \<Longrightarrow> dom m = set xs"
    using collect_partial_same_set [of body xs Map.empty m xs] by simp
qed


lemma point_query_answers:
  assumes "set taxids \<subseteq> dom dic"
  shows "\<exists>m. collect (\<lambda>taxid. map_sum id f (lookup dic taxid)) taxids Map.empty = Inr m
       \<and> dom m = set taxids \<and> (\<forall>x\<in>set taxids. m x = map_option f (dic x))"
proof -
  let ?m = "\<lambda>k. if k \<in> set taxids then map_option f (dic k) else None"
  have "collect (\<lambda>taxid. map_sum id f (lookup dic taxid)) taxids Map.empty = Inr ?m"
    by (rule point_query_returns [OF assms])
  moreover have "dom ?m = set taxids" by (rule dom_restricted [OF assms])
  moreover have "\<forall>x\<in>set taxids. ?m x = map_option f (dic x)" by simp
  ultimately show ?thesis by blast
qed

lemma ex_tree_dom: "dom ex_tree = {1, 543, 561, 562}"
  by (auto simp: ex_tree_def)

section \<open>Point queries on unknown taxids\<close>

text \<open>
  C8. \<open>getParent\<close>, \<open>getRank\<close>, \<open>getName\<close> and \<open>getChildren\<close>: when some taxid of the
  input is not a key of the tree, the call raises the KeyError of a dictionary lookup on
  such a taxid (the specification's UnknownTaxonError) and returns nothing, the results
  collected before it included; when all taxids are keys, the call returns a dictionary
  whose keys are the input taxids, each mapped to the field of its node.
\<close>

theorem point_queries_fail_whole_or_answer_all:
  "(\<not> set taxids \<subseteq> dom dic \<longrightarrow>
      (\<exists>k. k \<in> set taxids \<and> dic k = None \<and> getParent dic taxids = Inl (KeyError k)) \<and>
      (\<exists>k. k \<in> set taxids \<and> dic k = None \<and> getRank dic taxids = Inl (KeyError k)) \<and>
      (\<exists>k. k \<in> set taxids \<and> dic k = None \<and> getName dic taxids = Inl (KeyError k)) \<and>
      (\<exists>k. k \<in> set taxids \<and> dic k = None \<and> getChildren dic taxids = Inl (KeyError k)))
   \<and> (set taxids \<subseteq> dom dic \<longrightarrow>
      (\<exists>m. getParent dic taxids = Inr m \<and> dom m = set taxids \<and>
           (\<forall>x\<in>set taxids. m x = map_option parent (dic x))) \<and>
      (\<exists>m. getRank dic taxids = Inr m \<and> dom m = set taxids \<and>
           (\<forall>x\<in>set taxids. m x = map_option rank (dic x))) \<and>
      (\<exists>m. getName dic taxids = Inr m \<and> dom m = set taxids \<and>
           (\<forall>x\<in>set taxids. m x = map_option name (dic x))) \<and>
      (\<exists>m. getChildren dic taxids = Inr m \<and> dom m = set taxids \<and>
           (\<forall>x\<in>set taxids. m x = map_option children (dic x))))"
proof (intro conjI impI)
  assume a: "\<not> set taxids \<subseteq> dom dic"
  show "\<exists>k. k \<in> set taxids \<and> dic k = None \<and> getParent dic taxids = Inl (KeyError k)"
    unfolding getParent_def by (rule point_query_raises [OF a])
  show "\<exists>k. k \<in> set taxids \<and> dic k = None \<and> getRank dic taxids = Inl (KeyError k)"
    unfolding getRank_def by (rule point_query_raises [OF a])
  show "\<exists>k. k \<in> set taxids \<and> dic k = None \<and> getName dic taxids = Inl (KeyError k)"
    unfolding getName_def by (rule point_query_raises [OF a])
  show "\<exists>k. k \<in> set taxids \<and> dic k = None \<and> getChildren dic taxids = Inl (KeyError k)"
    unfolding getChildren_def by (rule point_query_raises [OF a])
next
  assume a: "set taxids \<subseteq> dom dic"
  note gen = point_query_answers [OF a]
  show "\<exists>m. getParent dic taxids = Inr m \<and> dom m = set taxids \<and>
           (\<forall>x\<in>set taxids. m x = map_option parent (dic x))"
    unfolding getParent_def by (rule gen)
  show "\<exists>m. getRank dic taxids = Inr m \<and> dom m = set taxids \<and>
           (\<forall>x\<in>set taxids. m x = map_option rank (dic x))"
    unfolding getRank_def by (rule gen)
  show "\<exists>m. getName dic taxids = Inr m \<and> dom m = set taxids \<and>
           (\<forall>x\<in>set taxids. m x = map_option name (dic x))"
    unfolding getName_def by (rule gen)
  show "\<exists>m. getChildren dic taxids = Inr m \<and> dom m = set taxids \<and>
           (\<forall>x\<in>set taxids. m x = map_option children (dic x))"
    unfolding getChildren_def by (rule gen)
qed

theorem point_queries_witness:
  "\<not> set [562, 7] \<subseteq> dom ex_tree
   \<and> (\<exists>k. k \<in> set [562, 7] \<and> ex_tree k = None \<and> getParent ex_tree [562, 7] = Inl (KeyError k))
   \<and> set [562, 1] \<subseteq> dom ex_tree
   \<and> (\<exists>m. getParent ex_tree [562, 1] = Inr m \<and> dom m = set [562, 1]
          \<and> m 562 = Some (Some 561) \<and> m 1 = Some None)
   \<and> (\<exists>m. getChildren ex_tree [562, 1] = Inr m \<and> dom m = set [562, 1]
          \<and> m 562 = Some [] \<and> m 1 = Some [543])"
proof -
  have h1: "\<not> set [562, 7] \<subseteq> dom ex_tree" by (simp add: ex_tree_dom)
  have h2: "set [562, 1] \<subseteq> dom ex_tree" by (simp add: ex_tree_dom)
  have v: "map_option parent (ex_tree 562) = Some (Some 561)" "map_option parent (ex_tree 1) = Some None"
    "map_option children (ex_tree 562) = Some []" "map_option children (ex_tree 1) = Some [543]"
    by (simp_all add: ex_tree_def)
  from point_queries_fail_whole_or_answer_all [of "[562, 7]" ex_tree] h1
  have a: "\<exists>k. k \<in> set [562, 7] \<and> ex_tree k = None \<and> getParent ex_tree [562, 7] = Inl (KeyError k)"
    by blast
  from point_queries_fail_whole_or_answer_all [of "[562, 1]" ex_tree] h2
  have b: "(\<exists>m. getParent ex_tree [562, 1] = Inr m \<and> dom m = set [562, 1] \<and>
           (\<forall>x\<in>set [562, 1]. m x = map_option parent (ex_tree x)))"
     and c: "(\<exists>m. getChildren ex_tree [562, 1] = Inr m \<and> dom m = set [562, 1] \<and>
           (\<forall>x\<in>set [562, 1]. m x = map_option children (ex_tree x)))"
    by blast+
  from b v have b': "\<exists>m. getParent ex_tree [562, 1] = Inr m \<and> dom m = set [562, 1]
          \<and> m 562 = Some (Some 561) \<and> m 1 = Some None" by auto
  from c v have c': "\<exists>m. getChildren ex_tree [562, 1] = Inr m \<and> dom m = set [562, 1]
          \<and> m 562 = Some [] \<and> m 1 = Some [543]" by auto
  from h1 h2 a b' c' show ?thesis by blast
qed

lemmas query_eval = getAscendantsWithRanksAndNames_def priv_getAscendantsWithRanksAndNames_def
  ascend.simps std_only_def is_std_def standard_ranks_def getDescendants_def
  getDescendantsWithRanksAndNames_def getLeaves_def flatten_def eval_nat_numeral

lemma ex_ascendants_dup:
  "\<exists>m. getAscendantsWithRanksAndNames ex_tree [561, 561] False = Some (Inr m)"
  by (simp add: query_eval ex_tree_def)

lemma ex_descendants_dup: "\<exists>m. getDescendants 5 ex_tree [561, 561] = Some (Inr m)"
  by (simp add: query_eval ex_tree_def)

lemma ex_descendants_names_dup:
  "\<exists>m. getDescendantsWithRanksAndNames 5 ex_tree [561, 561] = Some (Inr m)"
  by (simp add: query_eval ex_tree_def)

section \<open>The walk to the root\<close>

lemma build_cyc: "NcbiTaxonomyTree cyc_names cyc_nodes = Inr cyc_tree"
  unfolding cyc_tree_def
  by (simp add: cyc_names_def cyc_nodes_def ex_defs build_defs parse_defs) (rule ext, simp)

lemma ascend_cycle_never_returns:
  assumes "ascend dic taxid lineage = Some y"
  shows "\<not> (dic = cyc_tree \<and> (taxid = 2 \<or> taxid = 3))"
  using assms
proof (rule ascend.raw_induct
    [rotated, where P = "\<lambda>d t l r. \<not> (d = cyc_tree \<and> (t = 2 \<or> t = 3))"])
  fix f :: "dic \<Rightarrow> int \<Rightarrow> level list \<Rightarrow> (error + level list) option"
    and d t l r
  assume IH: "\<And>d t l r. f d t l = Some r \<Longrightarrow> \<not> (d = cyc_tree \<and> (t = 2 \<or> t = 3))"
  assume body:
    "(case d t of
        None \<Rightarrow> Some (Inl (KeyError t))
      | Some nd \<Rightarrow>
          (case parent nd of
             None \<Rightarrow> Some (Inr l)
           | Some p \<Rightarrow>
               (case d p of
                  None \<Rightarrow> Some (Inl (KeyError p))
                | Some pn \<Rightarrow> f d p (l @ [(p, rank pn, name pn)])))) = Some r"
  show "\<not> (d = cyc_tree \<and> (t = 2 \<or> t = 3))"
  proof
    assume a: "d = cyc_tree \<and> (t = 2 \<or> t = 3)"
    then have "t = 2 \<or> t = 3" by simp
    then show False
    proof
      assume "t = 2"
      with a body have "f cyc_tree 3 (l @ [(3, Some ''species'', ''three'')]) = Some r"
        by (simp add: cyc_tree_def)
      from IH [OF this] show False by simp
    next
      assume "t = 3"
      with a body have "f cyc_tree 2 (l @ [(2, Some ''genus'', ''two'')]) = Some r"
        by (simp add: cyc_tree_def)
      from IH [OF this] show False by simp
    qed
  qed
qed

lemma ascend_cyc_None: "ascend cyc_tree 2 lineage = None"
proof (cases "ascend cyc_tree 2 lineage")
  case None
  then show ?thesis .
next
  case (Some y)
  from ascend_cycle_never_returns [OF this] show ?thesis by simp
qed

text \<open>
  The constructor accepts the cyclic edge stream, and on the tree it returns the walk from
  taxid 2 never leaves the loop: no lookup fails and no parent is \<open>None\<close>, so the call
  neither returns nor raises (the lineage only grows). This is the part of C2 that the
  code does not meet: a violated invariant is not detected.
\<close>

theorem cycle_walk_never_returns:
  "NcbiTaxonomyTree cyc_names cyc_nodes = Inr cyc_tree
   \<and> getAscendantsWithRanksAndNames cyc_tree [2] False = None"
proof -
  have "cyc_tree 2 = Some \<lparr>name = ''two'', rank = Some ''genus'', parent = Some 3, children = [3]\<rparr>"
    by (simp add: cyc_tree_def)
  then have "getAscendantsWithRanksAndNames cyc_tree [2] False = None"
    by (simp add: getAscendantsWithRanksAndNames_def priv_getAscendantsWithRanksAndNames_def
          ascend_cyc_None)
  with build_cyc show ?thesis by simp
qed

lemma parent_rel_finite:
  assumes "finite (dom dic)"
  shows "finite (parent_rel dic)"
proof -
  have "parent_rel dic \<subseteq> (\<lambda>c. (the (parent (the (dic c))), c)) ` dom dic"
  proof
    fix x assume "x \<in> parent_rel dic"
    then obtain p c nd where x: "x = (p, c)" "dic c = Some nd" "parent nd = Some p"
      unfolding parent_rel_def by blast
    from x(2) have "c \<in> dom dic" by (rule domI)
    moreover from x have "x = (the (parent (the (dic c))), c)" by simp
    ultimately show "x \<in> (\<lambda>c. (the (parent (the (dic c))), c)) ` dom dic" by (rule rev_image_eqI)
  qed
  moreover from assms have "finite ((\<lambda>c. (the (parent (the (dic c))), c)) ` dom dic)"
    by (rule finite_imageI)
  ultimately show ?thesis by (rule finite_subset)
qed

lemma tree_inv_wf: "tree_inv dic \<Longrightarrow> wf (parent_rel dic)"
  unfolding tree_inv_def by (intro finite_acyclic_wf parent_rel_finite) simp_all

lemma ascend_root: "dic taxid = Some nd \<Longrightarrow> parent nd = None \<Longrightarrow>
    ascend dic taxid acc = Some (Inr acc)"
  by (subst ascend.simps) simp

lemma ascend_step: "dic taxid = Some nd \<Longrightarrow> parent nd = Some p \<Longrightarrow> dic p = Some pn \<Longrightarrow>
    ascend dic taxid acc = ascend dic p (acc @ [(p, rank pn, name pn)])"
  by (subst ascend.simps) simp

lemma ascend_returns:
  assumes "wf (parent_rel dic)"
    and closed: "\<forall>c nd p. dic c = Some nd \<and> parent nd = Some p \<longrightarrow> p \<in> dom dic"
  shows "dic taxid = Some nd \<Longrightarrow>
     \<exists>rest. ascend dic taxid acc = Some (Inr (acc @ rest)) \<and> links dic taxid rest \<and>
            is_root dic (last (taxid # map fst rest)) \<and> (parent nd = None \<longrightarrow> rest = [])"
  using assms(1)
proof (induction taxid arbitrary: acc nd rule: wf_induct_rule)
  case (less taxid)
  show ?case
  proof (cases "parent nd")
    case None
    with less.prems have "ascend dic taxid acc = Some (Inr (acc @ []))"
      by (simp add: ascend_root)
    moreover have "links dic taxid []" by simp
    moreover from None less.prems have "is_root dic (last (taxid # map fst []))"
      by (simp add: is_root_def)
    ultimately have "ascend dic taxid acc = Some (Inr (acc @ [])) \<and> links dic taxid [] \<and>
            is_root dic (last (taxid # map fst [])) \<and> (parent nd = None \<longrightarrow> [] = [])"
      by simp
    then show ?thesis by (rule exI)
  next
    case (Some p)
    from closed less.prems Some have "p \<in> dom dic" by blast
    then obtain pn where pn: "dic p = Some pn" by (auto simp: dom_def)
    from Some less.prems have "(p, taxid) \<in> parent_rel dic" by (simp add: parent_rel_def)
    from less.IH [OF this pn, of "acc @ [(p, rank pn, name pn)]"] obtain rest where
      r1: "ascend dic p (acc @ [(p, rank pn, name pn)])
            = Some (Inr ((acc @ [(p, rank pn, name pn)]) @ rest))"
      and r2: "links dic p rest" and r3: "is_root dic (last (p # map fst rest))"
      by (elim exE conjE)
    let ?rest = "(p, rank pn, name pn) # rest"
    have "ascend dic taxid acc = Some (Inr (acc @ ?rest))"
      using ascend_step [OF less.prems Some pn, of acc] r1 by simp
    moreover from Some less.prems pn r2 have "links dic taxid ?rest" by simp
    moreover from r3 have "is_root dic (last (taxid # map fst ?rest))" by simp
    moreover from Some have "parent nd = None \<longrightarrow> ?rest = []" by simp
    ultimately have "ascend dic taxid acc = Some (Inr (acc @ ?rest)) \<and> links dic taxid ?rest \<and>
            is_root dic (last (taxid # map fst ?rest)) \<and> (parent nd = None \<longrightarrow> ?rest = [])"
      by (intro conjI)
    then show ?thesis by (rule exI)
  qed
qed

lemma tree_inv_closed:
  "tree_inv dic \<Longrightarrow> \<forall>c nd p. dic c = Some nd \<and> parent nd = Some p \<longrightarrow> p \<in> dom dic"
  unfolding tree_inv_def by (elim conjE)

lemma lineage_of_tree:
  assumes "tree_inv dic" and "dic taxid = Some nd"
  shows "\<exists>rest. priv_getAscendantsWithRanksAndNames dic taxid False
                  = Some (Inr ((taxid, rank nd, name nd) # rest))
            \<and> priv_getAscendantsWithRanksAndNames dic taxid True
                  = Some (std_only ((taxid, rank nd, name nd) # rest))
            \<and> links dic taxid rest
            \<and> is_root dic (last (taxid # map fst rest))
            \<and> (parent nd = None \<longrightarrow> rest = [])"
proof -
  from ascend_returns [OF tree_inv_wf [OF assms(1)] tree_inv_closed [OF assms(1)] assms(2),
      where acc = "[(taxid, rank nd, name nd)]"]
  obtain rest where
    r1: "ascend dic taxid [(taxid, rank nd, name nd)]
          = Some (Inr ([(taxid, rank nd, name nd)] @ rest))"
    and r2: "links dic taxid rest" and r3: "is_root dic (last (taxid # map fst rest))"
    and r4: "parent nd = None \<longrightarrow> rest = []"
    by (elim exE conjE)
  from r1 assms(2) have "priv_getAscendantsWithRanksAndNames dic taxid False
                  = Some (Inr ((taxid, rank nd, name nd) # rest))"
    by (simp add: priv_getAscendantsWithRanksAndNames_def)
  moreover from r1 assms(2) have "priv_getAscendantsWithRanksAndNames dic taxid True
                  = Some (std_only ((taxid, rank nd, name nd) # rest))"
    by (simp add: priv_getAscendantsWithRanksAndNames_def)
  ultimately have "priv_getAscendantsWithRanksAndNames dic taxid False
                  = Some (Inr ((taxid, rank nd, name nd) # rest))
            \<and> priv_getAscendantsWithRanksAndNames dic taxid True
                  = Some (std_only ((taxid, rank nd, name nd) # rest))
            \<and> links dic taxid rest
            \<and> is_root dic (last (taxid # map fst rest))
            \<and> (parent nd = None \<longrightarrow> rest = [])"
    using r2 r3 r4 by (intro conjI)
  then show ?thesis by (rule exI)
qed

lemma ex_parent_rel: "parent_rel ex_tree = {(1, 543), (543, 561), (561, 562)}"
  by (auto simp: parent_rel_def ex_tree_def split: if_splits)

lemma ex_tree_inv: "tree_inv ex_tree"
proof -
  have "finite (dom ex_tree)" by (simp add: ex_tree_dom)
  moreover have "\<exists>!r. is_root ex_tree r"
  proof
    show "is_root ex_tree 1" by (simp add: is_root_def ex_tree_def)
    fix r assume "is_root ex_tree r"
    then show "r = 1" by (simp add: is_root_def ex_tree_def split: if_splits)
  qed
  moreover have "acyclic (parent_rel ex_tree)"
    by (rule acyclicI_order [where f = "\<lambda>x. - x"]) (auto simp: ex_parent_rel)
  moreover have "\<forall>c nd p. ex_tree c = Some nd \<and> parent nd = Some p \<longrightarrow> p \<in> dom ex_tree"
    unfolding ex_tree_dom by (auto simp: ex_tree_def split: if_splits)
  ultimately show ?thesis unfolding tree_inv_def by (intro conjI)
qed

section \<open>Ascendants of a node of a well-formed tree\<close>

text \<open>
  C2, for trees that satisfy the invariant. For every taxid of a tree with \<open>tree_inv\<close>,
  \<open>getAscendantsWithRanksAndNames\<close> returns: the lineage starts with the queried node,
  each further entry is the parent of the one before (with that node's rank and name),
  the last entry is the root (the node without parent), and the lineage of the root
  itself has exactly one entry.
\<close>

theorem ascendants_end_at_the_root:
  assumes "tree_inv dic" and "dic taxid = Some nd"
  shows "\<exists>rest. getAscendantsWithRanksAndNames dic [taxid] False
                  = Some (Inr [taxid \<mapsto> (taxid, rank nd, name nd) # rest])
            \<and> links dic taxid rest
            \<and> is_root dic (fst (last ((taxid, rank nd, name nd) # rest)))
            \<and> (is_root dic taxid \<longrightarrow> rest = [])"
proof -
  from lineage_of_tree [OF assms] obtain rest where
    r1: "priv_getAscendantsWithRanksAndNames dic taxid False
          = Some (Inr ((taxid, rank nd, name nd) # rest))"
    and r2: "links dic taxid rest" and r3: "is_root dic (last (taxid # map fst rest))"
    and r4: "parent nd = None \<longrightarrow> rest = []"
    by (elim exE conjE)
  from r1 have "getAscendantsWithRanksAndNames dic [taxid] False
                  = Some (Inr [taxid \<mapsto> (taxid, rank nd, name nd) # rest])"
    by (simp add: getAscendantsWithRanksAndNames_def)
  moreover have "last (taxid # map fst rest) = fst (last ((taxid, rank nd, name nd) # rest))"
    by (simp add: last_map)
  with r3 have "is_root dic (fst (last ((taxid, rank nd, name nd) # rest)))" by simp
  moreover from r4 assms(2) have "is_root dic taxid \<longrightarrow> rest = []"
    by (simp add: is_root_def)
  ultimately have "getAscendantsWithRanksAndNames dic [taxid] False
                  = Some (Inr [taxid \<mapsto> (taxid, rank nd, name nd) # rest])
            \<and> links dic taxid rest
            \<and> is_root dic (fst (last ((taxid, rank nd, name nd) # rest)))
            \<and> (is_root dic taxid \<longrightarrow> rest = [])"
    using r2 by (intro conjI)
  then show ?thesis by (rule exI)
qed


theorem ascendants_witness:
  "tree_inv ex_tree
   \<and> (\<exists>rest. getAscendantsWithRanksAndNames ex_tree [562] False
                = Some (Inr [562 \<mapsto> (562, Some ''species'', ''Escherichia coli'') # rest])
          \<and> links ex_tree 562 rest
          \<and> is_root ex_tree (fst (last ((562, Some ''species'', ''Escherichia coli'') # rest))))
   \<and> getAscendantsWithRanksAndNames ex_tree [1] False
        = Some (Inr [1 \<mapsto> [(1, Some ''no rank'', ''root'')]])"
proof -
  have n562: "ex_tree 562 = Some \<lparr>name = ''Escherichia coli'', rank = Some ''species'',
      parent = Some 561, children = []\<rparr>"
    by (simp add: ex_tree_def)
  have n1: "ex_tree 1 = Some \<lparr>name = ''root'', rank = Some ''no rank'', parent = None,
      children = [543]\<rparr>"
    by (simp add: ex_tree_def)
  have r1: "is_root ex_tree 1" by (simp add: is_root_def n1)
  from ascendants_end_at_the_root [OF ex_tree_inv n562] obtain rest where
    "getAscendantsWithRanksAndNames ex_tree [562] False
       = Some (Inr [562 \<mapsto> (562, Some ''species'', ''Escherichia coli'') # rest])"
    "links ex_tree 562 rest"
    "is_root ex_tree (fst (last ((562, Some ''species'', ''Escherichia coli'') # rest)))"
    unfolding node.simps by (elim exE conjE)
  then have "getAscendantsWithRanksAndNames ex_tree [562] False
                = Some (Inr [562 \<mapsto> (562, Some ''species'', ''Escherichia coli'') # rest])
          \<and> links ex_tree 562 rest
          \<and> is_root ex_tree (fst (last ((562, Some ''species'', ''Escherichia coli'') # rest)))"
    by (intro conjI)
  then have a: "\<exists>rest. getAscendantsWithRanksAndNames ex_tree [562] False
                = Some (Inr [562 \<mapsto> (562, Some ''species'', ''Escherichia coli'') # rest])
          \<and> links ex_tree 562 rest
          \<and> is_root ex_tree (fst (last ((562, Some ''species'', ''Escherichia coli'') # rest)))"
    by (rule exI)
  from ascendants_end_at_the_root [OF ex_tree_inv n1] obtain rest1 where
    "getAscendantsWithRanksAndNames ex_tree [1] False
       = Some (Inr [1 \<mapsto> (1, Some ''no rank'', ''root'') # rest1])"
    "is_root ex_tree 1 \<longrightarrow> rest1 = []"
    unfolding node.simps by (elim exE conjE)
  with r1 have b: "getAscendantsWithRanksAndNames ex_tree [1] False
        = Some (Inr [1 \<mapsto> [(1, Some ''no rank'', ''root'')]])"
    by simp
  from ex_tree_inv a b show ?thesis by (intro conjI)
qed



lemma std_only_Cons:
  "std_only (l0 # rest) =
     Inr (if fst (snd l0) = Some ''no rank'' then l0 # filter is_std (l0 # rest)
          else filter is_std (l0 # rest))"
  by (simp add: std_only_def)

lemma is_std_iff: "is_std lvl = (fst (snd lvl) \<in> Some ` set standard_ranks)"
  by (cases "fst (snd lvl)") (auto simp: is_std_def)

section \<open>What the nodes loop does to parents and child lists\<close>

lemma attach_child_effect:
  assumes "attach_child (d, n) taxid p = Inr (d', n')"
  shows "dom d' = insert p (dom d)"
    and "parent_of d' k = parent_of d k"
    and "children_of d' k = (if k = p then children_of d p @ [taxid] else children_of d k)"
proof -
  have "dom d' = insert p (dom d) \<and> parent_of d' k = parent_of d k \<and>
      children_of d' k = (if k = p then children_of d p @ [taxid] else children_of d k)"
  proof (cases "d p")
    case None
    with assms obtain nm where
      d': "d' = d(p \<mapsto> \<lparr>name = nm, rank = None, parent = None, children = [taxid]\<rparr>)"
      by (auto simp: attach_child_def split: option.splits)
    from None show ?thesis unfolding d' by (simp add: parent_of_def children_of_def)
  next
    case (Some q)
    with assms have d': "d' = d(p \<mapsto> q\<lparr>children := children q @ [taxid]\<rparr>)"
      by (simp add: attach_child_def)
    from Some show ?thesis unfolding d'
      by (auto simp: parent_of_def children_of_def)
  qed
  then show "dom d' = insert p (dom d)"
    and "parent_of d' k = parent_of d k"
    and "children_of d' k = (if k = p then children_of d p @ [taxid] else children_of d k)"
    by simp_all
qed

lemma nodes_line_effect:
  assumes "nodes_line (dic, t2n) l = Inr (dic', t2n')"
  shows "\<exists>taxid p. edge_of l = Some (taxid, p)
      \<and> dom dic' = insert taxid (insert p (dom dic))
      \<and> (\<forall>k. parent_of dic' k = (if k = taxid then Some p else parent_of dic k))
      \<and> (\<forall>k. children_of dic' k
              = (if k = p then children_of dic p @ [taxid] else children_of dic k))"
proof -
  let ?line = "take 3 (split CHR ''|'' l)"
  from assms obtain taxid where t: "py_int (?line ! 0) = Inr taxid"
    by (cases "py_int (?line ! 0)") (simp_all add: nodes_line_def Let_def)
  with assms have len2: "\<not> length ?line < 2"
    by (auto simp: nodes_line_def Let_def split: if_splits)
  with assms t obtain p where p: "py_int (?line ! 1) = Inr p"
    by (cases "py_int (?line ! 1)") (simp_all add: nodes_line_def Let_def)
  from t len2 p have e: "edge_of l = Some (taxid, p)"
    by (simp add: edge_of_def Let_def)
  have "\<exists>d1 n1. attach_child (d1, n1) taxid p = Inr (dic', t2n')
      \<and> dom d1 = insert taxid (dom dic)
      \<and> (\<forall>k. parent_of d1 k = (if k = taxid then Some p else parent_of dic k))
      \<and> (\<forall>k. children_of d1 k = children_of dic k)"
  proof (cases "dic taxid")
    case None
    with assms t len2 p obtain nm where nm: "t2n taxid = Some nm"
      by (cases "t2n taxid") (simp_all add: nodes_line_def Let_def)
    let ?d1 = "dic(taxid \<mapsto> \<lparr>name = nm, rank = Some (slice_1_m1 (?line ! 2)),
                   parent = Some p, children = []\<rparr>)"
    from assms t len2 p None nm
    have "attach_child (?d1, t2n(taxid := None)) taxid p = Inr (dic', t2n')"
      by (simp add: nodes_line_def Let_def split: if_splits)
    moreover have "dom ?d1 = insert taxid (dom dic)" by simp
    moreover have "\<forall>k. parent_of ?d1 k = (if k = taxid then Some p else parent_of dic k)"
      by (simp add: parent_of_def)
    moreover from None have "\<forall>k. children_of ?d1 k = children_of dic k"
      by (simp add: children_of_def)
    ultimately show ?thesis by blast
  next
    case (Some nd)
    let ?d1 = "dic(taxid \<mapsto> nd\<lparr>rank := Some (slice_1_m1 (?line ! 2)), parent := Some p\<rparr>)"
    from assms t len2 p Some
    have "attach_child (?d1, t2n) taxid p = Inr (dic', t2n')"
      by (simp add: nodes_line_def Let_def split: if_splits)
    moreover from Some have "dom ?d1 = insert taxid (dom dic)" by auto
    moreover have "\<forall>k. parent_of ?d1 k = (if k = taxid then Some p else parent_of dic k)"
      by (simp add: parent_of_def)
    moreover from Some have "\<forall>k. children_of ?d1 k = children_of dic k"
      by (simp add: children_of_def)
    ultimately show ?thesis by blast
  qed
  then obtain d1 n1 where a: "attach_child (d1, n1) taxid p = Inr (dic', t2n')"
    and d1: "dom d1 = insert taxid (dom dic)"
    and p1: "\<forall>k. parent_of d1 k = (if k = taxid then Some p else parent_of dic k)"
    and c1: "\<forall>k. children_of d1 k = children_of dic k"
    by blast
  have "dom dic' = insert taxid (insert p (dom dic))"
    using attach_child_effect(1) [OF a] d1 by auto
  moreover have "\<forall>k. parent_of dic' k = (if k = taxid then Some p else parent_of dic k)"
    using attach_child_effect(2) [OF a] p1 by simp
  moreover have "\<forall>k. children_of dic' k
              = (if k = p then children_of dic p @ [taxid] else children_of dic k)"
    using attach_child_effect(3) [OF a] c1 by simp
  ultimately show ?thesis using e by blast
qed

lemma edges_Cons: "edge_of l = Some e \<Longrightarrow> edges (l # ls) = e # edges ls"
  by (simp add: edges_def map_filter_simps)

lemma nodes_loop_effect:
  "nodes_loop (dic, t2n) ls = Inr (dic', t2n') \<Longrightarrow>
     dom dic' = dom dic \<union> fst ` set (edges ls) \<union> snd ` set (edges ls)
   \<and> (\<forall>k. k \<notin> fst ` set (edges ls) \<longrightarrow> parent_of dic' k = parent_of dic k)
   \<and> (\<forall>k. k \<in> fst ` set (edges ls) \<longrightarrow>
          (\<exists>p. parent_of dic' k = Some p \<and> (k, p) \<in> set (edges ls)))
   \<and> (\<forall>k. children_of dic' k
          = children_of dic k @ map fst (filter (\<lambda>r. snd r = k) (edges ls)))"
proof (induction ls arbitrary: dic t2n)
  case Nil
  then show ?case by (simp add: edges_def map_filter_simps)
next
  case (Cons l ls)
  from Cons.prems obtain d1 n1 where
    line: "nodes_line (dic, t2n) l = Inr (d1, n1)"
    and rest: "nodes_loop (d1, n1) ls = Inr (dic', t2n')"
    by (cases "nodes_line (dic, t2n) l") auto
  from nodes_line_effect [OF line] obtain taxid p where
    e: "edge_of l = Some (taxid, p)"
    and dom1: "dom d1 = insert taxid (insert p (dom dic))"
    and par1: "\<forall>k. parent_of d1 k = (if k = taxid then Some p else parent_of dic k)"
    and ch1: "\<forall>k. children_of d1 k
              = (if k = p then children_of dic p @ [taxid] else children_of dic k)"
    by blast
  note es = edges_Cons [OF e, of ls]
  from Cons.IH [OF rest] have
    domI: "dom dic' = dom d1 \<union> fst ` set (edges ls) \<union> snd ` set (edges ls)"
    and parI1: "\<forall>k. k \<notin> fst ` set (edges ls) \<longrightarrow> parent_of dic' k = parent_of d1 k"
    and parI2: "\<forall>k. k \<in> fst ` set (edges ls) \<longrightarrow>
          (\<exists>p. parent_of dic' k = Some p \<and> (k, p) \<in> set (edges ls))"
    and chI: "\<forall>k. children_of dic' k
          = children_of d1 k @ map fst (filter (\<lambda>r. snd r = k) (edges ls))"
    by simp_all
  have a: "dom dic' = dom dic \<union> fst ` set (edges (l # ls)) \<union> snd ` set (edges (l # ls))"
    unfolding es domI dom1 by auto
  have b: "\<forall>k. k \<notin> fst ` set (edges (l # ls)) \<longrightarrow> parent_of dic' k = parent_of dic k"
    unfolding es using parI1 par1 by simp
  have c: "\<forall>k. k \<in> fst ` set (edges (l # ls)) \<longrightarrow>
          (\<exists>p. parent_of dic' k = Some p \<and> (k, p) \<in> set (edges (l # ls)))"
  proof (intro allI impI)
    fix k assume k: "k \<in> fst ` set (edges (l # ls))"
    show "\<exists>p. parent_of dic' k = Some p \<and> (k, p) \<in> set (edges (l # ls))"
    proof (cases "k \<in> fst ` set (edges ls)")
      case True
      with parI2 obtain q where "parent_of dic' k = Some q" "(k, q) \<in> set (edges ls)"
        by blast
      then have "parent_of dic' k = Some q \<and> (k, q) \<in> set (edges (l # ls))"
        unfolding es by simp
      then show ?thesis by (rule exI)
    next
      case False
      with k have kt: "k = taxid" unfolding es by simp
      from False parI1 par1 kt have "parent_of dic' k = Some p" by simp
      with kt have "parent_of dic' k = Some p \<and> (k, p) \<in> set (edges (l # ls))"
        unfolding es by simp
      then show ?thesis by (rule exI)
    qed
  qed
  have d: "\<forall>k. children_of dic' k
          = children_of dic k @ map fst (filter (\<lambda>r. snd r = k) (edges (l # ls)))"
    unfolding es using chI ch1 by simp
  from a b c d show ?case by (intro conjI)
qed

lemma fix_root_effect:
  assumes "fix_root dic = Inr t"
  shows "dom t = dom dic" and "1 \<in> dom dic" and "1 \<in> set (children_of dic 1)"
    and "parent_of t k = (if k = 1 then None else parent_of dic k)"
    and "children_of t k = (if k = 1 then remove1 1 (children_of dic 1) else children_of dic k)"
proof -
  from assms obtain r where r: "dic 1 = Some r"
    by (cases "dic 1") (simp_all add: fix_root_def)
  with assms have in1: "1 \<in> set (children r)"
    by (auto simp: fix_root_def split: if_splits)
  with assms r have t: "t = dic(1 \<mapsto> r\<lparr>parent := None, children := remove1 1 (children r)\<rparr>)"
    by (simp add: fix_root_def)
  from r show "1 \<in> dom dic" by (rule domI)
  from r show "dom t = dom dic" unfolding t by auto
  from r in1 show "1 \<in> set (children_of dic 1)" by (simp add: children_of_def)
  show "parent_of t k = (if k = 1 then None else parent_of dic k)"
    unfolding t by (simp add: parent_of_def)
  from r show "children_of t k
      = (if k = 1 then remove1 1 (children_of dic 1) else children_of dic k)"
    unfolding t by (simp add: children_of_def)
qed

lemma build_stages:
  assumes "NcbiTaxonomyTree names_file nodes_file = Inr t"
  shows "\<exists>taxid2name dic rest.
      nodes_loop (Map.empty, taxid2name) nodes_file = Inr (dic, rest) \<and> fix_root dic = Inr t"
proof -
  from assms obtain taxid2name where n: "names_loop Map.empty names_file = Inr taxid2name"
    by (cases "names_loop Map.empty names_file") (simp_all add: NcbiTaxonomyTree_def)
  with assms obtain st where st: "nodes_loop (Map.empty, taxid2name) nodes_file = Inr st"
    by (cases "nodes_loop (Map.empty, taxid2name) nodes_file")
      (simp_all add: NcbiTaxonomyTree_def)
  obtain dic rest where p: "st = (dic, rest)" by (cases st)
  from assms n st p have "fix_root dic = Inr t" by (simp add: NcbiTaxonomyTree_def)
  with st p show ?thesis by blast
qed

lemma build_shape:
  assumes "NcbiTaxonomyTree names_file nodes_file = Inr t"
  shows "dom t = fst ` set (edges nodes_file) \<union> snd ` set (edges nodes_file)"
    and "(1, 1) \<in> set (edges nodes_file)"
    and "parent_of t 1 = None"
    and "k \<noteq> 1 \<Longrightarrow> k \<in> fst ` set (edges nodes_file) \<Longrightarrow>
           \<exists>p. parent_of t k = Some p \<and> (k, p) \<in> set (edges nodes_file)"
    and "children_of t k =
           (if k = 1 then remove1 1 (map fst (filter (\<lambda>r. snd r = 1) (edges nodes_file)))
            else map fst (filter (\<lambda>r. snd r = k) (edges nodes_file)))"
proof -
  from build_stages [OF assms] obtain taxid2name dic rest where
    loop: "nodes_loop (Map.empty, taxid2name) nodes_file = Inr (dic, rest)"
    and root: "fix_root dic = Inr t"
    by blast
  let ?E = "edges nodes_file"
  from nodes_loop_effect [OF loop] have
    d: "dom dic = fst ` set ?E \<union> snd ` set ?E"
    and p2: "\<forall>k. k \<in> fst ` set ?E \<longrightarrow> (\<exists>p. parent_of dic k = Some p \<and> (k, p) \<in> set ?E)"
    and c: "\<forall>k. children_of dic k = map fst (filter (\<lambda>r. snd r = k) ?E)"
    by (simp_all add: children_of_def)
  show "dom t = fst ` set ?E \<union> snd ` set ?E"
    using fix_root_effect(1) [OF root] d by simp
  from fix_root_effect(3) [OF root] c
  have "1 \<in> set (map fst (filter (\<lambda>r. snd r = 1) ?E))" by simp
  then obtain r where r: "r \<in> set ?E" "snd r = 1" "fst r = 1" by auto
  from r(2,3) have "r = (1, 1)" by (simp add: prod_eq_iff)
  with r(1) show "(1, 1) \<in> set ?E" by simp
  show "parent_of t 1 = None" using fix_root_effect(4) [OF root, of 1] by simp
  show "\<exists>p. parent_of t k = Some p \<and> (k, p) \<in> set ?E"
    if "k \<noteq> 1" "k \<in> fst ` set ?E"
    using that p2 fix_root_effect(4) [OF root, of k] by simp
  show "children_of t k =
           (if k = 1 then remove1 1 (map fst (filter (\<lambda>r. snd r = 1) ?E))
            else map fst (filter (\<lambda>r. snd r = k) ?E))"
    using fix_root_effect(5) [OF root, of k] c by simp
qed

lemma build_ph: "NcbiTaxonomyTree cyc_names ph_nodes = Inr ph_tree"
  unfolding ph_tree_def
  by (simp add: cyc_names_def ph_nodes_def ex_defs build_defs parse_defs) (rule ext, simp)

lemma is_root_parent_of: "is_root dic k = (k \<in> dom dic \<and> parent_of dic k = None)"
  by (cases "dic k") (simp_all add: is_root_def parent_of_def dom_def)

lemma distinct_children:
  "distinct (map fst E) \<Longrightarrow> distinct (map fst (filter P E))"
  by (rule distinct_map_filter)

lemma count_list_distinct:
  "distinct xs \<Longrightarrow> count_list xs k = (if k \<in> set xs then 1 else 0)"
  by (induction xs) auto

lemma ex_edges:
  "edges [rec_561, rec_543, rec_562, rec_1] = [(561, 543), (543, 1), (562, 561), (1, 1)]"
  by (simp add: edges_def map_filter_simps edge_of_def ex_defs parse_defs)

section \<open>The root after construction\<close>

text \<open>
  The constructor accepts an edge stream in which the parent 3 has no record of its own;
  the placeholder made for 3 keeps \<open>parent = None\<close>, so the tree has two nodes without
  parent although the root's record names 1 as its own parent. C6 as stated, for any
  stream with the self-referencing root record, fails here.
\<close>

theorem unpromoted_placeholder_is_a_second_root:
  "NcbiTaxonomyTree cyc_names ph_nodes = Inr ph_tree
   \<and> is_root ph_tree 1 \<and> is_root ph_tree 3 \<and> edge_of rec_1 = Some (1, 1)"
proof -
  have "is_root ph_tree 1" "is_root ph_tree 3" by (simp_all add: is_root_def ph_tree_def)
  moreover have "edge_of rec_1 = Some (1, 1)"
    by (simp add: edge_of_def ex_defs parse_defs)
  ultimately show ?thesis using build_ph by simp
qed

text \<open>
  C6, for edge streams in which every id that appears, as the taxid or as the parent of
  a record, receives exactly one edge record. After a construction that succeeds, the
  root 1 is the one node without parent, 1 is in no child list, its own included, and
  the record of 1 names 1 as its parent.
\<close>

theorem one_root_after_construction:
  assumes "NcbiTaxonomyTree names_file nodes_file = Inr t"
    and "distinct (map fst (edges nodes_file))"
    and "snd ` set (edges nodes_file) \<subseteq> fst ` set (edges nodes_file)"
  shows "is_root t 1 \<and> (\<forall>k. is_root t k \<longrightarrow> k = 1)
       \<and> (\<forall>k nd. t k = Some nd \<longrightarrow> 1 \<notin> set (children nd))
       \<and> (1, 1) \<in> set (edges nodes_file)"
proof -
  let ?E = "edges nodes_file"
  note sh = build_shape [OF assms(1)]
  have one: "(1, 1) \<in> set ?E" by (rule sh(2))
  from sh(1) assms(3) have dom: "dom t = fst ` set ?E" by auto
  from one have "1 \<in> fst ` set ?E" by force
  with dom sh(3) have r1: "is_root t 1" by (simp add: is_root_parent_of)
  have r2: "\<forall>k. is_root t k \<longrightarrow> k = 1"
  proof (intro allI impI)
    fix k assume k: "is_root t k"
    show "k = 1"
    proof (rule ccontr)
      assume "k \<noteq> 1"
      moreover from k dom have "k \<in> fst ` set ?E" by (simp add: is_root_parent_of)
      ultimately obtain p where "parent_of t k = Some p" using sh(4) by blast
      with k show False by (simp add: is_root_parent_of)
    qed
  qed
  have r3: "\<forall>k nd. t k = Some nd \<longrightarrow> 1 \<notin> set (children nd)"
  proof (intro allI impI)
    fix k nd assume nd: "t k = Some nd"
    then have ch: "children nd = children_of t k" by (simp add: children_of_def)
    show "1 \<notin> set (children nd)"
    proof (cases "k = 1")
      case True
      have "distinct (map fst (filter (\<lambda>r. snd r = 1) ?E))"
        by (rule distinct_children [OF assms(2)])
      then have "1 \<notin> set (remove1 1 (map fst (filter (\<lambda>r. snd r = 1) ?E)))"
        by (simp add: set_remove1_eq)
      with True show ?thesis unfolding ch sh(5) by simp
    next
      case False
      have "1 \<notin> set (map fst (filter (\<lambda>r. snd r = k) ?E))"
      proof
        assume "1 \<in> set (map fst (filter (\<lambda>r. snd r = k) ?E))"
        then obtain r where r: "r \<in> set ?E" "snd r = k" "fst r = 1" by auto
        then have "r = (1, k)" by (simp add: prod_eq_iff)
        with r(1) have "(1, k) \<in> set ?E" by simp
        with one assms(2) have "k = 1" by (meson eq_key_imp_eq_value)
        with False show False by simp
      qed
      with False show ?thesis unfolding ch sh(5) by simp
    qed
  qed
  from r1 r2 r3 one show ?thesis by (intro conjI)
qed


theorem one_root_witness:
  "NcbiTaxonomyTree ex_names [rec_561, rec_543, rec_562, rec_1] = Inr ex_tree
   \<and> distinct (map fst (edges [rec_561, rec_543, rec_562, rec_1]))
   \<and> snd ` set (edges [rec_561, rec_543, rec_562, rec_1])
        \<subseteq> fst ` set (edges [rec_561, rec_543, rec_562, rec_1])
   \<and> is_root ex_tree 1 \<and> \<not> is_root ex_tree 543
   \<and> (1, 1) \<in> set (edges [rec_561, rec_543, rec_562, rec_1])"
proof -
  have d: "distinct (map fst (edges [rec_561, rec_543, rec_562, rec_1]))"
    by (simp add: ex_edges)
  have c: "snd ` set (edges [rec_561, rec_543, rec_562, rec_1])
        \<subseteq> fst ` set (edges [rec_561, rec_543, rec_562, rec_1])"
    by (simp add: ex_edges)
  from one_root_after_construction [OF build_root_last d c]
  have r: "is_root ex_tree 1" and u: "\<forall>k. is_root ex_tree k \<longrightarrow> k = 1"
    and e: "(1, 1) \<in> set (edges [rec_561, rec_543, rec_562, rec_1])"
    by simp_all
  from u have "\<not> is_root ex_tree 543" by auto
  with build_root_last d c r e show ?thesis by (intro conjI)
qed

section \<open>Parent and child lists agree\<close>

text \<open>
  C7. After a construction that succeeds on an edge stream in which every id that
  appears receives exactly one edge record, every node \<open>n\<close> other than the root 1 has a
  parent \<open>p\<close>, and \<open>getChildren([p])[p]\<close> contains \<open>n\<close> exactly once.
\<close>

theorem parent_child_round_trip:
  assumes "NcbiTaxonomyTree names_file nodes_file = Inr t"
    and "distinct (map fst (edges nodes_file))"
    and "snd ` set (edges nodes_file) \<subseteq> fst ` set (edges nodes_file)"
    and "t n = Some nd" and "n \<noteq> 1"
  shows "\<exists>p cs. parent nd = Some p \<and> getChildren t [p] = Inr [p \<mapsto> cs]
           \<and> count_list cs n = 1"
proof -
  let ?E = "edges nodes_file"
  note sh = build_shape [OF assms(1)]
  from sh(1) assms(3) have dom: "dom t = fst ` set ?E" by auto
  from assms(4) have "n \<in> dom t" by (rule domI)
  with dom have "n \<in> fst ` set ?E" by simp
  with sh(4) [OF assms(5)] obtain p where p: "parent_of t n = Some p" "(n, p) \<in> set ?E"
    by blast
  from p(1) assms(4) have par: "parent nd = Some p" by (simp add: parent_of_def)
  from p(2) have "p \<in> snd ` set ?E" by force
  with sh(1) have "p \<in> dom t" by simp
  then obtain pn where pn: "t p = Some pn" by (auto simp: dom_def)
  then have q: "getChildren t [p] = Inr [p \<mapsto> children pn]"
    by (simp add: getChildren_def lookup_def)
  let ?xs = "map fst (filter (\<lambda>r. snd r = p) ?E)"
  have dx: "distinct ?xs" by (rule distinct_children [OF assms(2)])
  from p(2) have nx: "n \<in> set ?xs" by force
  have "count_list (children_of t p) n = 1"
  proof (cases "p = 1")
    case True
    from dx have "distinct (remove1 1 ?xs)" by simp
    moreover from nx assms(5) dx have "n \<in> set (remove1 1 ?xs)" by (simp add: set_remove1_eq)
    ultimately have "count_list (remove1 1 ?xs) n = 1"
      by (simp only: count_list_distinct if_True)
    with True show ?thesis unfolding sh(5) by simp
  next
    case False
    from dx nx have "count_list ?xs n = 1" by (simp add: count_list_distinct)
    with False show ?thesis unfolding sh(5) by simp
  qed
  with pn have "count_list (children pn) n = 1" by (simp add: children_of_def)
  with par q have "parent nd = Some p \<and> getChildren t [p] = Inr [p \<mapsto> children pn]
           \<and> count_list (children pn) n = 1"
    by (intro conjI)
  then show ?thesis by (intro exI)
qed

theorem round_trip_witness:
  "NcbiTaxonomyTree ex_names [rec_561, rec_543, rec_562, rec_1] = Inr ex_tree
   \<and> distinct (map fst (edges [rec_561, rec_543, rec_562, rec_1]))
   \<and> snd ` set (edges [rec_561, rec_543, rec_562, rec_1])
        \<subseteq> fst ` set (edges [rec_561, rec_543, rec_562, rec_1])
   \<and> (\<exists>cs. getChildren ex_tree [561] = Inr [561 \<mapsto> cs] \<and> count_list cs 562 = 1)"
proof -
  have d: "distinct (map fst (edges [rec_561, rec_543, rec_562, rec_1]))"
    by (simp add: ex_edges)
  have c: "snd ` set (edges [rec_561, rec_543, rec_562, rec_1])
        \<subseteq> fst ` set (edges [rec_561, rec_543, rec_562, rec_1])"
    by (simp add: ex_edges)
  have n: "ex_tree 562 = Some \<lparr>name = ''Escherichia coli'', rank = Some ''species'',
      parent = Some 561, children = []\<rparr>"
    by (simp add: ex_tree_def)
  have neq: "(562 :: int) \<noteq> 1" by simp
  from parent_child_round_trip [OF build_root_last d c n neq]
  have "\<exists>cs. getChildren ex_tree [561] = Inr [561 \<mapsto> cs] \<and> count_list cs 562 = 1"
    by simp
  with build_root_last d c show ?thesis by (intro conjI)
qed

section \<open>Malformed records in the nodes loop\<close>

lemma split_nonempty: "split sep s \<noteq> []"
  by (induction s) (auto split: list.splits)

lemma malformed_line_raises:
  assumes "malformed l"
  shows "(\<exists>s. nodes_line st l = Inl (ValueError s)) \<or> nodes_line st l = Inl IndexError
       \<or> (\<exists>k. nodes_line st l = Inl (KeyError k))"
proof -
  obtain dic t2n where st: "st = (dic, t2n)" by (cases st)
  let ?fs = "split CHR ''|'' l"
  let ?line = "take 3 ?fs"
  have ne: "?fs \<noteq> []" by (rule split_nonempty)
  then have l0: "?line ! 0 = ?fs ! 0" by (cases ?fs) simp_all
  show ?thesis
  proof (cases "py_int (?fs ! 0)")
    case (Inl e)
    then obtain s where "e = ValueError s" by (auto simp: py_int_def split: option.splits)
    with Inl l0 st have "nodes_line st l = Inl (ValueError s)"
      by (simp add: nodes_line_def Let_def)
    then show ?thesis by blast
  next
    case t: (Inr taxid)
    show ?thesis
    proof (cases "length ?fs < 2")
      case True
      with t l0 st have "nodes_line st l = Inl IndexError"
        by (simp add: nodes_line_def Let_def)
      then show ?thesis by blast
    next
      case len2: False
      then have l1: "?line ! 1 = ?fs ! 1" by simp
      show ?thesis
      proof (cases "py_int (?fs ! 1)")
        case (Inl e)
        then obtain s where "e = ValueError s" by (auto simp: py_int_def split: option.splits)
        with Inl t l0 l1 len2 st have "nodes_line st l = Inl (ValueError s)"
          by (simp add: nodes_line_def Let_def)
        then show ?thesis by blast
      next
        case p: (Inr parent_taxid)
        from assms t p have len3: "length ?fs < 3" by (simp add: malformed_def Let_def)
        from len2 have len2': "\<not> length ?line < 2" by simp
        show ?thesis
        proof (cases "dic taxid")
          case (Some nd)
          with t p l0 l1 len2' len3 st have "nodes_line st l = Inl IndexError"
            by (simp add: nodes_line_def Let_def)
          then show ?thesis by blast
        next
          case None
          show ?thesis
          proof (cases "t2n taxid")
            case n: None
            with None t p l0 l1 len2' len3 st have "nodes_line st l = Inl (KeyError taxid)"
              by (simp add: nodes_line_def Let_def)
            then show ?thesis by blast
          next
            case n: (Some nm)
            with None t p l0 l1 len2' len3 st have "nodes_line st l = Inl IndexError"
              by (simp add: nodes_line_def Let_def)
            then show ?thesis by blast
          qed
        qed
      qed
    qed
  qed
qed

lemma nodes_loop_aborts:
  assumes "l \<in> set ls" and "\<And>st. isl (nodes_line st l)"
  shows "isl (nodes_loop st ls)"
  using assms(1)
proof (induction ls arbitrary: st)
  case Nil
  then show ?case by simp
next
  case (Cons x xs)
  show ?case
  proof (cases "nodes_line st x")
    case (Inl e)
    then show ?thesis by simp
  next
    case (Inr st')
    with assms(2) [of st] have "x \<noteq> l" by auto
    with Cons.prems have "l \<in> set xs" by simp
    then have "isl (nodes_loop st' xs)" by (rule Cons.IH)
    with Inr show ?thesis by simp
  qed
qed

lemma build_aborts:
  assumes "l \<in> set nodes_file" and "\<And>st. isl (nodes_line st l)"
  shows "isl (NcbiTaxonomyTree names_file nodes_file)"
proof (cases "names_loop Map.empty names_file")
  case (Inl e)
  then show ?thesis by (simp add: NcbiTaxonomyTree_def)
next
  case (Inr taxid2name)
  from nodes_loop_aborts [OF assms, of "(Map.empty, taxid2name)"]
  obtain e where "nodes_loop (Map.empty, taxid2name) nodes_file = Inl e"
    by (cases "nodes_loop (Map.empty, taxid2name) nodes_file") simp_all
  with Inr show ?thesis by (simp add: NcbiTaxonomyTree_def)
qed

lemma malformed_two_fields:
  "malformed (two_fields ''543'' ''1'')" "malformed (two_fields ''561'' ''1'')"
  "malformed (two_fields ''7'' ''1'')"
  by (simp_all add: malformed_def two_fields_def parse_defs)

text \<open>
  What the exception of a malformed record says. Two different records cut off after the
  second field end the constructor with the same \<open>IndexError\<close>, which carries nothing
  of the line; and when the taxid of such a record has no name, the constructor ends
  with the \<open>KeyError\<close> of the name lookup, the same exception as for a complete record
  with an unnamed taxid. The module has no exception of its own for a parse error, so
  C9 as stated (a ParseError that identifies the offending line) does not hold.
\<close>

theorem malformed_record_error_names_no_line:
  "malformed (two_fields ''543'' ''1'') \<and> malformed (two_fields ''561'' ''1'')
   \<and> two_fields ''543'' ''1'' \<noteq> two_fields ''561'' ''1''
   \<and> NcbiTaxonomyTree ex_names [rec_1, two_fields ''543'' ''1''] = Inl IndexError
   \<and> NcbiTaxonomyTree ex_names [rec_1, two_fields ''561'' ''1''] = Inl IndexError
   \<and> malformed (two_fields ''7'' ''1'')
   \<and> NcbiTaxonomyTree ex_names [rec_1, two_fields ''7'' ''1''] = Inl (KeyError 7)
   \<and> NcbiTaxonomyTree ex_names [rec_1, nodes_rec ''7'' ''1'' ''genus''] = Inl (KeyError 7)"
proof -
  have "two_fields ''543'' ''1'' \<noteq> two_fields ''561'' ''1''"
    by (simp add: two_fields_def)
  moreover have "NcbiTaxonomyTree ex_names [rec_1, two_fields ''543'' ''1''] = Inl IndexError"
    by (simp add: two_fields_def ex_defs build_defs parse_defs)
  moreover have "NcbiTaxonomyTree ex_names [rec_1, two_fields ''561'' ''1''] = Inl IndexError"
    by (simp add: two_fields_def ex_defs build_defs parse_defs)
  moreover have "NcbiTaxonomyTree ex_names [rec_1, two_fields ''7'' ''1''] = Inl (KeyError 7)"
    by (simp add: two_fields_def ex_defs build_defs parse_defs)
  moreover have "NcbiTaxonomyTree ex_names [rec_1, nodes_rec ''7'' ''1'' ''genus'']
      = Inl (KeyError 7)"
    by (simp add: ex_defs build_defs parse_defs)
  ultimately show ?thesis using malformed_two_fields by (intro conjI)
qed

text \<open>
  C9, as the code has it. An edge record with fewer than three fields, or with a first or
  second field that is no integer literal, makes its iteration raise: \<open>ValueError\<close> from
  \<open>int\<close>, \<open>IndexError\<close> from the missing field, or \<open>KeyError\<close> from the name lookup that
  precedes the read of the third field. The exception leaves the constructor: whatever
  the other lines are, the constructor returns no tree, so a malformed line is never
  skipped and never yields a partly built tree.
\<close>

theorem malformed_record_aborts_the_build:
  assumes "malformed l"
  shows "((\<exists>s. nodes_line st l = Inl (ValueError s)) \<or> nodes_line st l = Inl IndexError
          \<or> (\<exists>k. nodes_line st l = Inl (KeyError k)))
       \<and> (l \<in> set nodes_file \<longrightarrow> (\<exists>e. NcbiTaxonomyTree names_file nodes_file = Inl e))"
proof (intro conjI impI)
  show "(\<exists>s. nodes_line st l = Inl (ValueError s)) \<or> nodes_line st l = Inl IndexError
          \<or> (\<exists>k. nodes_line st l = Inl (KeyError k))"
    by (rule malformed_line_raises [OF assms])
next
  assume mem: "l \<in> set nodes_file"
  have "\<And>st. isl (nodes_line st l)"
    using malformed_line_raises [OF assms] by (metis sum.disc(1))
  from build_aborts [OF mem this, of names_file]
  show "\<exists>e. NcbiTaxonomyTree names_file nodes_file = Inl e"
    by (cases "NcbiTaxonomyTree names_file nodes_file") simp_all
qed

theorem malformed_record_witness:
  "malformed (two_fields ''543'' ''1'')
   \<and> two_fields ''543'' ''1'' \<in> set [rec_1, two_fields ''543'' ''1'', rec_561]
   \<and> (\<exists>e. NcbiTaxonomyTree ex_names [rec_1, two_fields ''543'' ''1'', rec_561] = Inl e)"
proof -
  have m: "malformed (two_fields ''543'' ''1'')" by (rule malformed_two_fields(1))
  have s: "two_fields ''543'' ''1'' \<in> set [rec_1, two_fields ''543'' ''1'', rec_561]"
    by simp
  from malformed_record_aborts_the_build [OF m, of _ "[rec_1, two_fields ''543'' ''1'', rec_561]" ex_names] s
  have "\<exists>e. NcbiTaxonomyTree ex_names [rec_1, two_fields ''543'' ''1'', rec_561] = Inl e"
    by blast
  with m s show ?thesis by (intro conjI)
qed

section \<open>Descendants and leaves of a node with children\<close>

lemma flatten_elts_append: "flatten_elts (xs @ ys) = flatten_elts xs @ flatten_elts ys"
  by (induction xs rule: flatten_elts.induct) simp_all

lemma flatten_elts_concat: "flatten_elts rs = concat (map (\<lambda>r. flatten_elts [r]) rs)"
proof (induction rs)
  case Nil
  show ?case by simp
next
  case (Cons r rs)
  have "flatten_elts (r # rs) = flatten_elts ([r] @ rs)" by simp
  also have "\<dots> = flatten_elts [r] @ flatten_elts rs" by (rule flatten_elts_append)
  finally show ?case using Cons.IH by simp
qed

lemma comprehension_results:
  "comprehension f cs = Some (Inr rs) \<Longrightarrow> list_all2 (\<lambda>c r. f c = Some (Inr r)) cs rs"
proof (induction cs arbitrary: rs)
  case Nil
  then show ?case by simp
next
  case (Cons c cs)
  from Cons.prems obtain v where v: "f c = Some (Inr v)"
    by (cases "f c") (auto split: sum.splits)
  with Cons.prems obtain vs where vs: "comprehension f cs = Some (Inr vs)"
    by (cases "comprehension f cs") (auto split: sum.splits)
  with v Cons.prems have "rs = v # vs" by simp
  with v Cons.IH [OF vs] show ?case by simp
qed

lemma concat_map_all2:
  "list_all2 (\<lambda>c r. g r = h c) cs rs \<Longrightarrow> concat (map g rs) = concat (map h cs)"
  by (induction cs rs rule: list_all2_induct) simp_all

lemma priv_getDescendants_preorder:
  "priv_getDescendants depth dic taxid = Some (Inr v) \<Longrightarrow>
     flatten_elts [v] = preorder depth dic taxid"
proof (induction depth arbitrary: taxid v)
  case 0
  then show ?case by simp
next
  case (Suc depth)
  from Suc.prems obtain nd where nd: "dic taxid = Some nd"
    by (cases "dic taxid") simp_all
  then have co: "children_of dic taxid = children nd" by (simp add: children_of_def)
  show ?case
  proof (cases "children nd = []")
    case True
    with Suc.prems nd have "v = PInt taxid" by simp
    with True co show ?thesis by simp
  next
    case False
    with Suc.prems nd obtain rs where
      rs: "comprehension (priv_getDescendants depth dic) (children nd) = Some (Inr rs)"
      by (cases "comprehension (priv_getDescendants depth dic) (children nd)")
        (auto split: sum.splits)
    with Suc.prems nd False have v: "v = PList (PInt taxid # rs)" by simp
    from comprehension_results [OF rs]
    have "list_all2 (\<lambda>c r. flatten_elts [r] = preorder depth dic c) (children nd) rs"
      by (rule list_all2_mono) (rule Suc.IH)
    then have "concat (map (\<lambda>r. flatten_elts [r]) rs)
        = concat (map (preorder depth dic) (children nd))"
      by (rule concat_map_all2)
    then have "flatten_elts rs = concat (map (preorder depth dic) (children nd))"
      by (simp add: flatten_elts_concat [of rs])
    with v co show ?thesis by simp
  qed
qed

lemma priv_getLeaves_preorder:
  "priv_getLeaves depth dic taxid = Some (Inr v) \<Longrightarrow>
     flatten_elts [v] = filter (\<lambda>x. children_of dic x = []) (preorder depth dic taxid)"
proof (induction depth arbitrary: taxid v)
  case 0
  then show ?case by simp
next
  case (Suc depth)
  from Suc.prems obtain nd where nd: "dic taxid = Some nd"
    by (cases "dic taxid") simp_all
  then have co: "children_of dic taxid = children nd" by (simp add: children_of_def)
  show ?case
  proof (cases "children nd = []")
    case True
    with Suc.prems nd have "v = PInt taxid" by simp
    with True co show ?thesis by simp
  next
    case False
    with Suc.prems nd obtain rs where
      rs: "comprehension (priv_getLeaves depth dic) (children nd) = Some (Inr rs)"
      by (cases "comprehension (priv_getLeaves depth dic) (children nd)")
        (auto split: sum.splits)
    with Suc.prems nd False have v: "v = PList rs" by simp
    let ?leaf = "\<lambda>x. children_of dic x = []"
    from comprehension_results [OF rs]
    have "list_all2 (\<lambda>c r. flatten_elts [r] = filter ?leaf (preorder depth dic c))
        (children nd) rs"
      by (rule list_all2_mono) (rule Suc.IH)
    then have "concat (map (\<lambda>r. flatten_elts [r]) rs)
        = concat (map (\<lambda>c. filter ?leaf (preorder depth dic c)) (children nd))"
      by (rule concat_map_all2)
    then have "flatten_elts rs
        = concat (map (\<lambda>c. filter ?leaf (preorder depth dic c)) (children nd))"
      by (simp add: flatten_elts_concat [of rs])
    also have "\<dots> = filter ?leaf (concat (map (preorder depth dic) (children nd)))"
      by (simp add: filter_concat comp_def)
    finally show ?thesis using v co False by simp
  qed
qed

lemma comprehension_returns:
  "(\<And>c. c \<in> set cs \<Longrightarrow> \<exists>w. g c = Some (Inr w)) \<Longrightarrow>
     \<exists>ws. comprehension g cs = Some (Inr ws)"
proof (induction cs)
  case Nil
  show ?case by simp
next
  case (Cons c cs)
  from Cons.prems [of c] obtain w where w: "g c = Some (Inr w)" by auto
  have "\<exists>ws. comprehension g cs = Some (Inr ws)"
    by (rule Cons.IH) (simp add: Cons.prems)
  then obtain ws where "comprehension g cs = Some (Inr ws)" ..
  with w have "comprehension g (c # cs) = Some (Inr (w # ws))" by simp
  then show ?case by (rule exI)
qed

lemma comprehension_members:
  "comprehension f cs = Some (Inr rs) \<Longrightarrow> c \<in> set cs \<Longrightarrow> \<exists>r. f c = Some (Inr r)"
proof -
  assume "comprehension f cs = Some (Inr rs)" and c: "c \<in> set cs"
  then have "list_all2 (\<lambda>c r. f c = Some (Inr r)) cs rs" by (simp add: comprehension_results)
  with c show ?thesis by (auto simp: list_all2_conv_all_nth in_set_conv_nth)
qed

lemma priv_getLeaves_returns:
  "priv_getDescendants depth dic taxid = Some (Inr v) \<Longrightarrow>
     \<exists>w. priv_getLeaves depth dic taxid = Some (Inr w)
        \<and> (if children_of dic taxid = [] then w = PInt taxid else \<exists>ws. w = PList ws)"
proof (induction depth arbitrary: taxid v)
  case 0
  then show ?case by simp
next
  case (Suc depth)
  from Suc.prems obtain nd where nd: "dic taxid = Some nd"
    by (cases "dic taxid") simp_all
  then have co: "children_of dic taxid = children nd" by (simp add: children_of_def)
  show ?case
  proof (cases "children nd = []")
    case True
    with nd co show ?thesis by simp
  next
    case False
    with Suc.prems nd obtain rs where
      rs: "comprehension (priv_getDescendants depth dic) (children nd) = Some (Inr rs)"
      by (cases "comprehension (priv_getDescendants depth dic) (children nd)")
        (auto split: sum.splits)
    have "\<exists>ws. comprehension (priv_getLeaves depth dic) (children nd) = Some (Inr ws)"
    proof (rule comprehension_returns)
      fix c assume "c \<in> set (children nd)"
      with rs obtain r where "priv_getDescendants depth dic c = Some (Inr r)"
        using comprehension_members by blast
      from Suc.IH [OF this] show "\<exists>w. priv_getLeaves depth dic c = Some (Inr w)" by blast
    qed
    then obtain ws where "comprehension (priv_getLeaves depth dic) (children nd) = Some (Inr ws)" ..
    with nd False co show ?thesis by simp
  qed
qed

lemma getDescendants_single:
  "getDescendants depth dic [taxid] = Some (Inr m) \<Longrightarrow>
     \<exists>elts. priv_getDescendants depth dic taxid = Some (Inr (PList elts))
          \<and> m = [taxid \<mapsto> flatten_elts elts]"
proof -
  assume a: "getDescendants depth dic [taxid] = Some (Inr m)"
  then obtain v where v: "priv_getDescendants depth dic taxid = Some (Inr v)"
    by (cases "priv_getDescendants depth dic taxid")
      (auto simp: getDescendants_def split: sum.splits)
  show ?thesis
  proof (cases v)
    case (PInt n)
    with a v show ?thesis by (simp add: getDescendants_def flatten_def)
  next
    case (PList elts)
    with a v have "m = [taxid \<mapsto> flatten_elts elts]"
      by (simp add: getDescendants_def flatten_def)
    with v PList show ?thesis by simp
  qed
qed

lemma priv_getDescendants_PList:
  "priv_getDescendants depth dic taxid = Some (Inr (PList elts)) \<Longrightarrow>
     children_of dic taxid \<noteq> []"
proof (cases depth)
  case 0
  assume "priv_getDescendants depth dic taxid = Some (Inr (PList elts))"
  with 0 show ?thesis by simp
next
  case (Suc d)
  assume a: "priv_getDescendants depth dic taxid = Some (Inr (PList elts))"
  with Suc obtain nd where nd: "dic taxid = Some nd" by (cases "dic taxid") simp_all
  with a Suc have "children nd \<noteq> []" by (auto split: if_splits)
  with nd show ?thesis by (simp add: children_of_def)
qed

lemma getDescendants_preorder:
  assumes "getDescendants depth dic [taxid] = Some (Inr m)"
  shows "m = [taxid \<mapsto> preorder depth dic taxid]"
    and "children_of dic taxid \<noteq> []"
proof -
  from getDescendants_single [OF assms] obtain elts where
    e: "priv_getDescendants depth dic taxid = Some (Inr (PList elts))"
    and m: "m = [taxid \<mapsto> flatten_elts elts]"
    by blast
  from priv_getDescendants_preorder [OF e] have "flatten_elts elts = preorder depth dic taxid"
    by simp
  with m show "m = [taxid \<mapsto> preorder depth dic taxid]" by simp
  from e show "children_of dic taxid \<noteq> []" by (rule priv_getDescendants_PList)
qed

lemma getLeaves_of_inner_node:
  assumes "getDescendants depth dic [x] = Some (Inr m)"
  shows "\<exists>ds. m x = Some ds
       \<and> getLeaves depth dic x = Some (Inr (filter (\<lambda>d. children_of dic d = []) ds))"
proof -
  note p = getDescendants_preorder [OF assms]
  from getDescendants_single [OF assms] obtain elts where
    e: "priv_getDescendants depth dic x = Some (Inr (PList elts))" by blast
  from priv_getLeaves_returns [OF e] p(2) obtain ws where
    w: "priv_getLeaves depth dic x = Some (Inr (PList ws))" by auto
  from priv_getLeaves_preorder [OF w]
  have "flatten_elts ws = filter (\<lambda>d. children_of dic d = []) (preorder depth dic x)"
    by simp
  with w have "getLeaves depth dic x
      = Some (Inr (filter (\<lambda>d. children_of dic d = []) (preorder depth dic x)))"
    by (simp add: getLeaves_def flatten_def)
  with p(1) show ?thesis by simp
qed

lemma with_ranks_and_names_ints:
  "with_ranks_and_names dic elts = Inr lvls \<Longrightarrow> e \<in> set elts \<Longrightarrow> \<exists>n. e = PInt n"
proof (induction dic elts arbitrary: lvls rule: with_ranks_and_names.induct)
  case (1 dic)
  then show ?case by simp
next
  case (2 dic sub elts)
  then show ?case by simp
next
  case (3 dic descendant elts)
  from "3.prems"(1) obtain nd where nd: "dic descendant = Some nd"
    by (cases "dic descendant") simp_all
  with "3.prems"(1) obtain rest where rest: "with_ranks_and_names dic elts = Inr rest"
    by (cases "with_ranks_and_names dic elts") simp_all
  show ?case
  proof (cases "e = PInt descendant")
    case True
    then show ?thesis by simp
  next
    case False
    with "3.prems"(2) have "e \<in> set elts" by simp
    with "3.IH" [OF nd rest] show ?thesis by simp
  qed
qed

lemma list_all2_member:
  "list_all2 P cs rs \<Longrightarrow> c \<in> set cs \<Longrightarrow> \<exists>r. r \<in> set rs \<and> P c r"
  by (induction rule: list_all2_induct) auto

lemma priv_getDescendants_PInt:
  "priv_getDescendants depth dic taxid = Some (Inr (PInt n)) \<Longrightarrow> children_of dic taxid = []"
proof (cases depth)
  case 0
  assume "priv_getDescendants depth dic taxid = Some (Inr (PInt n))"
  with 0 show ?thesis by simp
next
  case (Suc d)
  assume a: "priv_getDescendants depth dic taxid = Some (Inr (PInt n))"
  with Suc obtain nd where nd: "dic taxid = Some nd" by (cases "dic taxid") simp_all
  with a Suc have "children nd = []"
    by (auto split: if_splits option.splits sum.splits)
  with nd show ?thesis by (simp add: children_of_def)
qed

lemma getDescendantsWithRanksAndNames_returns_only_for_height_one:
  assumes "getDescendantsWithRanksAndNames depth dic [taxid] = Some (Inr m)"
  shows "children_of dic taxid \<noteq> []"
    and "c \<in> set (children_of dic taxid) \<Longrightarrow> children_of dic c = []"
proof -
  from assms obtain v where v: "priv_getDescendants depth dic taxid = Some (Inr v)"
    by (cases "priv_getDescendants depth dic taxid")
      (auto simp: getDescendantsWithRanksAndNames_def split: sum.splits)
  with assms obtain elts where elts: "v = PList elts"
    by (cases v) (simp_all add: getDescendantsWithRanksAndNames_def)
  with assms v obtain lvls where lv: "with_ranks_and_names dic elts = Inr lvls"
    by (cases "with_ranks_and_names dic elts")
      (simp_all add: getDescendantsWithRanksAndNames_def)
  from v elts show ne: "children_of dic taxid \<noteq> []"
    by (simp add: priv_getDescendants_PList)
  show "children_of dic c = []" if c: "c \<in> set (children_of dic taxid)"
  proof -
    from v elts obtain d where d: "depth = Suc d" by (cases depth) simp_all
    from v d obtain nd where nd: "dic taxid = Some nd" by (cases "dic taxid") simp_all
    then have co: "children_of dic taxid = children nd" by (simp add: children_of_def)
    with ne have ne': "children nd \<noteq> []" by simp
    with v d nd obtain rs where
      rs: "comprehension (priv_getDescendants d dic) (children nd) = Some (Inr rs)"
      by (cases "comprehension (priv_getDescendants d dic) (children nd)")
        (auto split: sum.splits)
    with v d nd ne' elts have e: "elts = PInt taxid # rs" by simp
    from c co have "c \<in> set (children nd)" by simp
    from list_all2_member [OF comprehension_results [OF rs] this] obtain r where
      r: "r \<in> set rs" "priv_getDescendants d dic c = Some (Inr r)"
      by blast
    from r(1) e have "r \<in> set elts" by simp
    with lv obtain n where "r = PInt n" using with_ranks_and_names_ints by blast
    with r(2) show ?thesis by (simp add: priv_getDescendants_PInt)
  qed
qed

section \<open>Descendants of a leaf, and of a subtree deeper than one level\<close>

text \<open>
  C4 asks for the preorder enumeration of the subtree of every taxid. The code gives it
  for a node with children (\<open>getDescendants_preorder\<close>), but on the example tree:
  \<open>getDescendants\<close> of the leaf 562 raises TypeError, because \<open>_getDescendants\<close> returns
  the bare taxid and \<open>flatten\<close> iterates over it; \<open>getDescendantsWithRanksAndNames\<close>
  raises TypeError on the leaf 562 for the same reason, and on 543, whose subtree has two
  levels, because it iterates over the nested result without flattening it and uses the
  inner list as a dictionary key. The bound on the depth plays no part: the results hold
  for every bound that lets the recursion finish.
\<close>

theorem descendants_fail_on_leaf_and_on_deep_subtree:
  "getDescendants (Suc depth) ex_tree [562] = Some (Inl TypeError)
   \<and> getDescendantsWithRanksAndNames (Suc depth) ex_tree [562] = Some (Inl TypeError)
   \<and> getDescendantsWithRanksAndNames (Suc (Suc (Suc depth))) ex_tree [543]
       = Some (Inl TypeError)
   \<and> getDescendants (Suc (Suc (Suc depth))) ex_tree [543]
       = Some (Inr [543 \<mapsto> [543, 561, 562]])"
  by (simp add: getDescendants_def getDescendantsWithRanksAndNames_def flatten_def ex_tree_def)

text \<open>
  C5 compares the leaves of \<open>x\<close> with the childless taxids among the descendants of
  \<open>x\<close>. For a node with children the two agree (\<open>getLeaves_of_inner_node\<close>). For the
  leaf 562 of the example tree \<open>getLeaves\<close> returns the one-element list, as claimed,
  while \<open>getDescendants\<close> raises TypeError, so the two sides cannot be compared.
\<close>

theorem leaves_of_a_leaf_but_no_descendants:
  "children_of ex_tree 562 = []
   \<and> getLeaves (Suc depth) ex_tree 562 = Some (Inr [562])
   \<and> getDescendants (Suc depth) ex_tree [562] = Some (Inl TypeError)"
  by (simp add: getDescendants_def getLeaves_def flatten_def ex_tree_def children_of_def)

section \<open>The nodes loop on parsed records\<close>

lemma record_of_fields:
  assumes "record_of l = Some (taxid, p, r)"
  shows "py_int (take 3 (split CHR ''|'' l) ! 0) = Inr taxid"
    and "\<not> length (take 3 (split CHR ''|'' l)) < 2"
    and "py_int (take 3 (split CHR ''|'' l) ! 1) = Inr p"
    and "\<not> length (take 3 (split CHR ''|'' l)) < 3"
    and "r = slice_1_m1 (take 3 (split CHR ''|'' l) ! 2)"
    and "edge_of l = Some (taxid, p)"
proof -
  let ?line = "take 3 (split CHR ''|'' l)"
  from assms have e: "edge_of l = Some (taxid, p)"
    by (cases "edge_of l") (auto simp: record_of_def Let_def split: if_splits)
  from e show "edge_of l = Some (taxid, p)" .
  from e obtain t where t: "py_int (?line ! 0) = Inr t"
    by (cases "py_int (?line ! 0)") (simp_all add: edge_of_def Let_def)
  with e have l2: "\<not> length ?line < 2" by (auto simp: edge_of_def Let_def split: if_splits)
  with e t obtain q where q: "py_int (?line ! 1) = Inr q"
    by (cases "py_int (?line ! 1)") (simp_all add: edge_of_def Let_def)
  with e t l2 have "t = taxid" "q = p" by (simp_all add: edge_of_def Let_def)
  with t q l2 show "py_int (?line ! 0) = Inr taxid" "\<not> length ?line < 2"
    "py_int (?line ! 1) = Inr p" by simp_all
  from assms e show "\<not> length ?line < 3"
    by (auto simp: record_of_def Let_def split: if_splits)
  from assms e show "r = slice_1_m1 (?line ! 2)"
    by (auto simp: record_of_def Let_def split: if_splits)
qed

lemma nodes_line_record:
  assumes "record_of l = Some (taxid, p, r)"
  shows "nodes_line (dic, t2n) l =
     (case dic taxid of
        Some nd \<Rightarrow> attach_child (dic(taxid \<mapsto> nd\<lparr>rank := Some r, parent := Some p\<rparr>), t2n) taxid p
      | None \<Rightarrow>
          (case t2n taxid of
             None \<Rightarrow> Inl (KeyError taxid)
           | Some nm \<Rightarrow>
               attach_child (dic(taxid \<mapsto> \<lparr>name = nm, rank = Some r, parent = Some p,
                                            children = []\<rparr>),
                             t2n(taxid := None)) taxid p))"
  using record_of_fields(1-5) [OF assms]
  by (simp add: nodes_line_def Let_def split: option.splits)

lemma nodes_line_needs_record:
  assumes "nodes_line (dic, t2n) l = Inr st'"
  shows "\<exists>rec. record_of l = Some rec"
proof -
  obtain dic' t2n' where st': "st' = (dic', t2n')" by (cases st')
  from nodes_line_effect [OF assms [unfolded st']] obtain taxid p where
    e: "edge_of l = Some (taxid, p)" by blast
  have "\<not> length (take 3 (split CHR ''|'' l)) < 3"
  proof
    assume "length (take 3 (split CHR ''|'' l)) < 3"
    then have "length (split CHR ''|'' l) < 3" by simp
    then have "malformed l" by (simp add: malformed_def Let_def)
    from malformed_line_raises [OF this, of "(dic, t2n)"] assms show False by auto
  qed
  with e show ?thesis by (simp add: record_of_def Let_def)
qed

lemma names_keptI:
  "(\<And>k. dic k = None \<Longrightarrow> t2n k = names k) \<Longrightarrow>
   (\<And>k nd. dic k = Some nd \<Longrightarrow> names k = Some (name nd)) \<Longrightarrow> names_kept names (dic, t2n)"
  by (simp add: names_kept_def split: option.splits)

lemma names_keptD:
  assumes "names_kept names (dic, t2n)"
  shows "dic k = None \<Longrightarrow> t2n k = names k"
    and "dic k = Some nd \<Longrightarrow> names k = Some (name nd)"
  using assms by (auto simp: names_kept_def split: option.splits dest: spec [of _ k])

lemma attach_child_names:
  assumes "names_kept names (d, n)" and "attach_child (d, n) taxid p = Inr st'"
  shows "names_kept names st'" and "names p \<noteq> None"
proof -
  have "names_kept names st' \<and> names p \<noteq> None"
  proof (cases "d p")
    case None
    with assms(2) obtain nm where nm: "n p = Some nm"
      by (cases "n p") (simp_all add: attach_child_def)
    with None assms(2) have st':
      "st' = (d(p \<mapsto> \<lparr>name = nm, rank = None, parent = None, children = [taxid]\<rparr>),
              n(p := None))"
      by (simp add: attach_child_def)
    from names_keptD(1) [OF assms(1) None] nm have np: "names p = Some nm" by simp
    have "names_kept names st'" unfolding st'
    proof (rule names_keptI)
      fix k assume "(d(p \<mapsto> \<lparr>name = nm, rank = None, parent = None, children = [taxid]\<rparr>)) k = None"
      then have "k \<noteq> p" "d k = None" by (auto split: if_splits)
      with names_keptD(1) [OF assms(1)] show "(n(p := None)) k = names k" by simp
    next
      fix k nd
      assume a: "(d(p \<mapsto> \<lparr>name = nm, rank = None, parent = None, children = [taxid]\<rparr>)) k
          = Some nd"
      show "names k = Some (name nd)"
      proof (cases "k = p")
        case True
        with a np show ?thesis by auto
      next
        case False
        with a have "d k = Some nd" by simp
        then show ?thesis by (rule names_keptD(2) [OF assms(1)])
      qed
    qed
    with np show ?thesis by simp
  next
    case (Some q)
    with assms(2) have st': "st' = (d(p \<mapsto> q\<lparr>children := children q @ [taxid]\<rparr>), n)"
      by (simp add: attach_child_def)
    from names_keptD(2) [OF assms(1) Some] have np: "names p = Some (name q)" .
    have "names_kept names st'" unfolding st'
    proof (rule names_keptI)
      fix k assume "(d(p \<mapsto> q\<lparr>children := children q @ [taxid]\<rparr>)) k = None"
      then have "d k = None" by (auto split: if_splits)
      then show "n k = names k" by (rule names_keptD(1) [OF assms(1)])
    next
      fix k nd
      assume a: "(d(p \<mapsto> q\<lparr>children := children q @ [taxid]\<rparr>)) k = Some nd"
      show "names k = Some (name nd)"
      proof (cases "k = p")
        case True
        with a np show ?thesis by auto
      next
        case False
        with a have "d k = Some nd" by simp
        then show ?thesis by (rule names_keptD(2) [OF assms(1)])
      qed
    qed
    with np show ?thesis by simp
  qed
  then show "names_kept names st'" and "names p \<noteq> None" by simp_all
qed

lemma attach_child_succeeds:
  assumes "names_kept names (d, n)" and "names p \<noteq> None"
  shows "\<exists>st'. attach_child (d, n) taxid p = Inr st'"
proof (cases "d p")
  case None
  from names_keptD(1) [OF assms(1) None] assms(2) obtain nm where "n p = Some nm" by auto
  with None show ?thesis by (simp add: attach_child_def)
next
  case (Some q)
  then show ?thesis by (simp add: attach_child_def)
qed

lemma attach_child_rank:
  assumes "attach_child (d, n) taxid p = Inr (d', n')"
  shows "rank_of d' k = rank_of d k"
proof (cases "d p")
  case None
  with assms obtain nm where
    d': "d' = d(p \<mapsto> \<lparr>name = nm, rank = None, parent = None, children = [taxid]\<rparr>)"
    by (auto simp: attach_child_def split: option.splits)
  from None show ?thesis unfolding d' by (simp add: rank_of_def)
next
  case (Some q)
  with assms have d': "d' = d(p \<mapsto> q\<lparr>children := children q @ [taxid]\<rparr>)"
    by (simp add: attach_child_def)
  from Some show ?thesis unfolding d' by (simp add: rank_of_def)
qed

lemma first_half_names:
  assumes k: "names_kept names (dic, t2n)"
  shows "dic taxid = Some nd \<Longrightarrow>
      names_kept names (dic(taxid \<mapsto> nd\<lparr>rank := Some r, parent := Some p\<rparr>), t2n)"
    and "dic taxid = None \<Longrightarrow> t2n taxid = Some nm \<Longrightarrow>
      names_kept names
        (dic(taxid \<mapsto> \<lparr>name = nm, rank = Some r, parent = Some p, children = []\<rparr>),
         t2n(taxid := None))"
proof -
  assume nd: "dic taxid = Some nd"
  show "names_kept names (dic(taxid \<mapsto> nd\<lparr>rank := Some r, parent := Some p\<rparr>), t2n)"
  proof (rule names_keptI)
    fix j assume "(dic(taxid \<mapsto> nd\<lparr>rank := Some r, parent := Some p\<rparr>)) j = None"
    then have "dic j = None" by (auto split: if_splits)
    then show "t2n j = names j" by (rule names_keptD(1) [OF k])
  next
    fix j x assume a: "(dic(taxid \<mapsto> nd\<lparr>rank := Some r, parent := Some p\<rparr>)) j = Some x"
    show "names j = Some (name x)"
    proof (cases "j = taxid")
      case True
      with a names_keptD(2) [OF k nd] show ?thesis by auto
    next
      case False
      with a have "dic j = Some x" by simp
      then show ?thesis by (rule names_keptD(2) [OF k])
    qed
  qed
next
  assume none: "dic taxid = None" and nm: "t2n taxid = Some nm"
  from names_keptD(1) [OF k none] nm have nt: "names taxid = Some nm" by simp
  let ?d1 = "dic(taxid \<mapsto> \<lparr>name = nm, rank = Some r, parent = Some p, children = []\<rparr>)"
  show "names_kept names (?d1, t2n(taxid := None))"
  proof (rule names_keptI)
    fix j assume "?d1 j = None"
    then have "j \<noteq> taxid" "dic j = None" by (auto split: if_splits)
    with names_keptD(1) [OF k] show "(t2n(taxid := None)) j = names j" by simp
  next
    fix j x assume a: "?d1 j = Some x"
    show "names j = Some (name x)"
    proof (cases "j = taxid")
      case True
      with a nt show ?thesis by auto
    next
      case False
      with a have "dic j = Some x" by simp
      then show ?thesis by (rule names_keptD(2) [OF k])
    qed
  qed
qed

lemma nodes_line_names:
  assumes k: "names_kept names (dic, t2n)"
    and r: "record_of l = Some (taxid, p, r)"
    and s: "nodes_line (dic, t2n) l = Inr st'"
  shows "names_kept names st'" and "names taxid \<noteq> None" and "names p \<noteq> None"
proof -
  have "names_kept names st' \<and> names taxid \<noteq> None \<and> names p \<noteq> None"
  proof (cases "dic taxid")
    case None
    with s obtain nm where nm: "t2n taxid = Some nm"
      by (cases "t2n taxid") (simp_all add: nodes_line_record [OF r])
    from names_keptD(1) [OF k None] nm have "names taxid = Some nm" by simp
    then have nt: "names taxid \<noteq> None" by simp
    from s None nm have a: "attach_child
        (dic(taxid \<mapsto> \<lparr>name = nm, rank = Some r, parent = Some p, children = []\<rparr>),
         t2n(taxid := None)) taxid p = Inr st'"
      by (simp add: nodes_line_record [OF r])
    from attach_child_names [OF first_half_names(2) [OF k None nm] a] nt show ?thesis by simp
  next
    case (Some nd)
    from names_keptD(2) [OF k Some] have nt: "names taxid \<noteq> None" by simp
    from s Some have a: "attach_child
        (dic(taxid \<mapsto> nd\<lparr>rank := Some r, parent := Some p\<rparr>), t2n) taxid p = Inr st'"
      by (simp add: nodes_line_record [OF r])
    from attach_child_names [OF first_half_names(1) [OF k Some] a] nt show ?thesis by simp
  qed
  then show "names_kept names st'" and "names taxid \<noteq> None" and "names p \<noteq> None"
    by simp_all
qed

lemma nodes_line_succeeds:
  assumes k: "names_kept names (dic, t2n)"
    and r: "record_of l = Some (taxid, p, r)"
    and nt: "names taxid \<noteq> None" and np: "names p \<noteq> None"
  shows "\<exists>st'. nodes_line (dic, t2n) l = Inr st'"
proof (cases "dic taxid")
  case None
  from names_keptD(1) [OF k None] nt obtain nm where nm: "t2n taxid = Some nm" by auto
  from attach_child_succeeds [OF first_half_names(2) [OF k None nm] np]
  obtain st' where "attach_child
        (dic(taxid \<mapsto> \<lparr>name = nm, rank = Some r, parent = Some p, children = []\<rparr>),
         t2n(taxid := None)) taxid p = Inr st'" by blast
  with None nm show ?thesis by (simp add: nodes_line_record [OF r])
next
  case (Some nd)
  from attach_child_succeeds [OF first_half_names(1) [OF k Some] np]
  obtain st' where "attach_child
        (dic(taxid \<mapsto> nd\<lparr>rank := Some r, parent := Some p\<rparr>), t2n) taxid p = Inr st'"
    by blast
  with Some show ?thesis by (simp add: nodes_line_record [OF r])
qed

lemma nodes_line_rank:
  assumes r: "record_of l = Some (taxid, p, r)"
    and s: "nodes_line (dic, t2n) l = Inr (dic', t2n')"
  shows "rank_of dic' k = (if k = taxid then Some r else rank_of dic k)"
proof (cases "dic taxid")
  case None
  with s obtain nm where nm: "t2n taxid = Some nm"
    by (cases "t2n taxid") (simp_all add: nodes_line_record [OF r])
  from s None nm have a: "attach_child
        (dic(taxid \<mapsto> \<lparr>name = nm, rank = Some r, parent = Some p, children = []\<rparr>),
         t2n(taxid := None)) taxid p = Inr (dic', t2n')"
    by (simp add: nodes_line_record [OF r])
  show ?thesis unfolding attach_child_rank [OF a] by (simp add: rank_of_def)
next
  case (Some nd)
  from s Some have a: "attach_child
        (dic(taxid \<mapsto> nd\<lparr>rank := Some r, parent := Some p\<rparr>), t2n) taxid p = Inr (dic', t2n')"
    by (simp add: nodes_line_record [OF r])
  show ?thesis unfolding attach_child_rank [OF a] by (simp add: rank_of_def)
qed

lemma records_Cons: "record_of l = Some rec \<Longrightarrow> records (l # ls) = rec # records ls"
  by (simp add: records_def map_filter_simps)

lemma nodes_loop_names:
  "names_kept names st \<Longrightarrow> nodes_loop st ls = Inr st' \<Longrightarrow>
     names_kept names st' \<and> (\<forall>l\<in>set ls. named_record names l)"
proof (induction ls arbitrary: st)
  case Nil
  then show ?case by simp
next
  case (Cons l ls)
  obtain dic t2n where st: "st = (dic, t2n)" by (cases st)
  from Cons.prems(2) obtain st1 where
    line: "nodes_line (dic, t2n) l = Inr st1" and rest: "nodes_loop st1 ls = Inr st'"
    unfolding st by (cases "nodes_line (dic, t2n) l") auto
  from nodes_line_needs_record [OF line] obtain taxid p r where
    r: "record_of l = Some (taxid, p, r)" by (metis prod_cases3)
  note n = nodes_line_names [OF Cons.prems(1) [unfolded st] r line]
  from n(2,3) r have "named_record names l" by (simp add: named_record_def)
  with Cons.IH [OF n(1) rest] show ?case by simp
qed

lemma nodes_loop_succeeds:
  "names_kept names st \<Longrightarrow> (\<forall>l\<in>set ls. named_record names l) \<Longrightarrow>
     \<exists>st'. nodes_loop st ls = Inr st'"
proof (induction ls arbitrary: st)
  case Nil
  show ?case by simp
next
  case (Cons l ls)
  obtain dic t2n where st: "st = (dic, t2n)" by (cases st)
  from Cons.prems(2) have "named_record names l" by simp
  then obtain taxid p r where r: "record_of l = Some (taxid, p, r)"
    and nt: "names taxid \<noteq> None" and np: "names p \<noteq> None"
    by (cases "record_of l") (auto simp: named_record_def)
  from nodes_line_succeeds [OF Cons.prems(1) [unfolded st] r nt np] obtain st1 where
    line: "nodes_line (dic, t2n) l = Inr st1" by blast
  from nodes_line_names(1) [OF Cons.prems(1) [unfolded st] r line]
  have "names_kept names st1" .
  moreover from Cons.prems(2) have "\<forall>l\<in>set ls. named_record names l" by simp
  ultimately obtain st' where "nodes_loop st1 ls = Inr st'" using Cons.IH by blast
  with line st show ?case by simp
qed

lemma nodes_loop_rank:
  "nodes_loop (dic, t2n) ls = Inr (dic', t2n') \<Longrightarrow>
     edges ls = map (\<lambda>r. (fst r, fst (snd r))) (records ls)
   \<and> (\<forall>k. k \<notin> fst ` set (records ls) \<longrightarrow> rank_of dic' k = rank_of dic k)
   \<and> (\<forall>k. k \<in> fst ` set (records ls) \<longrightarrow>
          (\<exists>p r. (k, p, r) \<in> set (records ls) \<and> rank_of dic' k = Some r))"
proof (induction ls arbitrary: dic t2n)
  case Nil
  then show ?case by (simp add: edges_def records_def map_filter_simps)
next
  case (Cons l ls)
  from Cons.prems obtain d1 n1 where
    line: "nodes_line (dic, t2n) l = Inr (d1, n1)"
    and rest: "nodes_loop (d1, n1) ls = Inr (dic', t2n')"
    by (cases "nodes_line (dic, t2n) l") auto
  from nodes_line_needs_record [OF line] obtain taxid p r where
    r: "record_of l = Some (taxid, p, r)" by (metis prod_cases3)
  note rs = records_Cons [OF r, of ls]
  note es = edges_Cons [OF record_of_fields(6) [OF r], of ls]
  note rk = nodes_line_rank [OF r line]
  from Cons.IH [OF rest] have
    eI: "edges ls = map (\<lambda>r. (fst r, fst (snd r))) (records ls)"
    and nI: "\<forall>k. k \<notin> fst ` set (records ls) \<longrightarrow> rank_of dic' k = rank_of d1 k"
    and yI: "\<forall>k. k \<in> fst ` set (records ls) \<longrightarrow>
          (\<exists>p r. (k, p, r) \<in> set (records ls) \<and> rank_of dic' k = Some r)"
    by simp_all
  have a: "edges (l # ls) = map (\<lambda>r. (fst r, fst (snd r))) (records (l # ls))"
    unfolding es rs using eI by simp
  have b: "\<forall>k. k \<notin> fst ` set (records (l # ls)) \<longrightarrow> rank_of dic' k = rank_of dic k"
    unfolding rs using nI rk by simp
  have c: "\<forall>k. k \<in> fst ` set (records (l # ls)) \<longrightarrow>
          (\<exists>p r. (k, p, r) \<in> set (records (l # ls)) \<and> rank_of dic' k = Some r)"
  proof (intro allI impI)
    fix k assume k: "k \<in> fst ` set (records (l # ls))"
    show "\<exists>p r. (k, p, r) \<in> set (records (l # ls)) \<and> rank_of dic' k = Some r"
    proof (cases "k \<in> fst ` set (records ls)")
      case True
      with yI obtain q s where "(k, q, s) \<in> set (records ls)" "rank_of dic' k = Some s"
        by blast
      then have "(k, q, s) \<in> set (records (l # ls)) \<and> rank_of dic' k = Some s"
        unfolding rs by simp
      then show ?thesis by (intro exI)
    next
      case False
      with k have kt: "k = taxid" unfolding rs by simp
      from False nI rk kt have "rank_of dic' k = Some r" by simp
      with kt have "(k, p, r) \<in> set (records (l # ls)) \<and> rank_of dic' k = Some r"
        unfolding rs by simp
      then show ?thesis by (intro exI)
    qed
  qed
  from a b c show ?case by (intro conjI)
qed

lemma arrivals_root:
  assumes "distinct (map fst E)"
  shows "remove1 1 (map fst (filter (\<lambda>e. snd e = 1) E)) = arrivals E 1"
proof -
  let ?ys = "map fst (filter (\<lambda>e. snd e = 1) E)"
  from assms have "distinct ?ys" by (rule distinct_map_filter)
  then have "remove1 1 ?ys = removeAll 1 ?ys" by (rule distinct_remove1_removeAll)
  also have "\<dots> = filter (\<lambda>x. x \<noteq> 1) ?ys" by (simp add: removeAll_filter_not_eq)
  also have "\<dots> = map fst (filter (\<lambda>e. snd e = 1 \<and> fst e \<noteq> 1) E)"
    by (simp add: filter_map comp_def conj_commute)
  finally show ?thesis by (simp add: arrivals_def)
qed

lemma arrivals_other:
  assumes "distinct (map fst E)" and "(1, 1) \<in> set E" and "k \<noteq> 1"
  shows "map fst (filter (\<lambda>e. snd e = k) E) = arrivals E k"
proof -
  have "filter (\<lambda>e. snd e = k) E = filter (\<lambda>e. snd e = k \<and> fst e \<noteq> 1) E"
  proof (rule filter_cong [OF refl])
    fix e assume e: "e \<in> set E"
    show "(snd e = k) = (snd e = k \<and> fst e \<noteq> 1)"
    proof (cases "fst e = 1")
      case True
      then have "e = (1, snd e)" by (simp add: prod_eq_iff)
      with e have "(1, snd e) \<in> set E" by simp
      with assms(1,2) have "snd e = 1" by (meson eq_key_imp_eq_value)
      with True assms(3) show ?thesis by simp
    next
      case False
      then show ?thesis by simp
    qed
  qed
  then show ?thesis by (simp add: arrivals_def)
qed

lemma fix_root_keeps:
  assumes "fix_root dic = Inr t"
  shows "rank_of t k = rank_of dic k"
    and "t k = Some nd \<Longrightarrow> \<exists>nd0. dic k = Some nd0 \<and> name nd = name nd0"
proof -
  from assms obtain r where r: "dic 1 = Some r"
    by (cases "dic 1") (simp_all add: fix_root_def)
  with assms have t: "t = dic(1 \<mapsto> r\<lparr>parent := None, children := remove1 1 (children r)\<rparr>)"
    by (auto simp: fix_root_def split: if_splits)
  from r show "rank_of t k = rank_of dic k" unfolding t by (simp add: rank_of_def)
  show "\<exists>nd0. dic k = Some nd0 \<and> name nd = name nd0" if "t k = Some nd"
  proof (cases "k = 1")
    case True
    with that r show ?thesis unfolding t by auto
  next
    case False
    with that show ?thesis unfolding t by simp
  qed
qed

lemma build_stages_names:
  assumes "NcbiTaxonomyTree names_file nodes_file = Inr t"
  shows "\<exists>names dic rest. names_loop Map.empty names_file = Inr names
      \<and> nodes_loop (Map.empty, names) nodes_file = Inr (dic, rest) \<and> fix_root dic = Inr t"
proof -
  from assms obtain names where n: "names_loop Map.empty names_file = Inr names"
    by (cases "names_loop Map.empty names_file") (simp_all add: NcbiTaxonomyTree_def)
  with assms obtain st where st: "nodes_loop (Map.empty, names) nodes_file = Inr st"
    by (cases "nodes_loop (Map.empty, names) nodes_file")
      (simp_all add: NcbiTaxonomyTree_def)
  obtain dic rest where p: "st = (dic, rest)" by (cases st)
  from assms n st p have "fix_root dic = Inr t" by (simp add: NcbiTaxonomyTree_def)
  with n st p show ?thesis by blast
qed

lemma names_kept_start: "names_kept names (Map.empty, names)"
  by (rule names_keptI) simp_all

lemma build_tree_of:
  assumes build: "NcbiTaxonomyTree names_file nodes_file = Inr t"
    and names: "names_loop Map.empty names_file = Inr names"
    and dist: "distinct (map fst (edges nodes_file))"
  shows "t = tree_of names (records nodes_file)"
    and "\<forall>l\<in>set nodes_file. named_record names l"
    and "(1, 1) \<in> set (edges nodes_file)"
    and "edges nodes_file = map (\<lambda>r. (fst r, fst (snd r))) (records nodes_file)"
proof -
  let ?R = "records nodes_file"
  let ?E = "edges nodes_file"
  let ?f = "\<lambda>r :: int \<times> int \<times> string. (fst r, fst (snd r))"
  from build_stages_names [OF build] names obtain dic rest where
    loop: "nodes_loop (Map.empty, names) nodes_file = Inr (dic, rest)"
    and root: "fix_root dic = Inr t"
    by auto
  from nodes_loop_rank [OF loop] have
    ER: "?E = map ?f ?R"
    and rk0: "\<forall>k. k \<notin> fst ` set ?R \<longrightarrow> rank_of dic k = None"
    and rk1: "\<forall>k. k \<in> fst ` set ?R \<longrightarrow>
          (\<exists>p r. (k, p, r) \<in> set ?R \<and> rank_of dic k = Some r)"
    by (simp_all add: rank_of_def)
  from nodes_loop_effect [OF loop] have
    dm: "dom dic = fst ` set ?E \<union> snd ` set ?E"
    and pa0: "\<forall>k. k \<notin> fst ` set ?E \<longrightarrow> parent_of dic k = None"
    and pa1: "\<forall>k. k \<in> fst ` set ?E \<longrightarrow> (\<exists>p. parent_of dic k = Some p \<and> (k, p) \<in> set ?E)"
    and ch: "\<forall>k. children_of dic k = map fst (filter (\<lambda>r. snd r = k) ?E)"
    by (simp_all add: parent_of_def children_of_def)
  from nodes_loop_names [OF names_kept_start loop] have
    nk: "names_kept names (dic, rest)" and nm: "\<forall>l\<in>set nodes_file. named_record names l"
    by simp_all
  note fr = fix_root_effect [OF root]
  note fk = fix_root_keeps [OF root]
  have one: "(1, 1) \<in> set ?E" by (rule build_shape(2) [OF build])
  have mf: "map fst ?E = map fst ?R" unfolding ER by (simp add: comp_def)
  with dist have distR: "distinct (map fst ?R)" by simp
  have sf: "fst ` set ?E = fst ` set ?R"
    using mf by (metis set_map)
  have ss: "snd ` set ?E = (fst \<circ> snd) ` set ?R"
    unfolding ER by (simp add: image_image comp_def)
  have rank_dic: "rank_of dic k = map_option snd (map_of ?R k)" for k
  proof (cases "k \<in> fst ` set ?R")
    case True
    with rk1 obtain p r where "(k, p, r) \<in> set ?R" "rank_of dic k = Some r" by blast
    with distR show ?thesis by (simp add: map_of_is_SomeI)
  next
    case False
    then have "map_of ?R k = None" by (simp add: map_of_eq_None_iff)
    with False rk0 show ?thesis by simp
  qed
  have parent_dic: "parent_of dic k = map_option fst (map_of ?R k)" for k
  proof (cases "k \<in> fst ` set ?R")
    case True
    with sf pa1 obtain p where p: "parent_of dic k = Some p" "(k, p) \<in> set ?E" by blast
    from p(2) obtain rec where rec: "rec \<in> set ?R" "(k, p) = ?f rec"
      unfolding ER by auto
    from rec(2) have "rec = (k, p, snd (snd rec))" by (simp add: prod_eq_iff)
    with rec(1) have "(k, p, snd (snd rec)) \<in> set ?R" by simp
    with distR have "map_of ?R k = Some (p, snd (snd rec))" by (simp add: map_of_is_SomeI)
    with p(1) show ?thesis by simp
  next
    case False
    then have "map_of ?R k = None" by (simp add: map_of_eq_None_iff)
    with False sf pa0 show ?thesis by simp
  qed
  have children_t: "children_of t k = arrivals ?E k" for k
  proof (cases "k = 1")
    case True
    with fr(5) [of k] ch arrivals_root [OF dist] show ?thesis by simp
  next
    case False
    with fr(5) [of k] ch arrivals_other [OF dist one False] show ?thesis by simp
  qed
  have "t k = tree_of names ?R k" for k
  proof (cases "t k")
    case None
    then have "k \<notin> dom t" by (simp add: dom_def)
    with fr(1) dm sf ss have "k \<notin> fst ` set ?R \<union> (fst \<circ> snd) ` set ?R" by simp
    with None show ?thesis by (simp add: tree_of_def)
  next
    case (Some nd)
    then have "k \<in> dom t" by (rule domI)
    with fr(1) dm sf ss have kin: "k \<in> fst ` set ?R \<union> (fst \<circ> snd) ` set ?R" by simp
    from fk(2) [OF Some] obtain nd0 where nd0: "dic k = Some nd0" "name nd = name nd0"
      by blast
    from names_keptD(2) [OF nk nd0(1)] nd0(2) have f1: "name nd = the (names k)" by simp
    from Some fk(1) [of k] rank_dic [of k] have f2: "rank nd = map_option snd (map_of ?R k)"
      by (simp add: rank_of_def)
    from Some fr(4) [of k] parent_dic [of k]
    have f3: "parent nd = (if k = 1 then None else map_option fst (map_of ?R k))"
      by (simp add: parent_of_def)
    from Some children_t [of k] have f4: "children nd = arrivals ?E k"
      by (simp add: children_of_def)
    have "nd = \<lparr>name = name nd, rank = rank nd, parent = parent nd, children = children nd\<rparr>"
      by simp
    then have "nd = \<lparr>name = the (names k), rank = map_option snd (map_of ?R k),
        parent = (if k = 1 then None else map_option fst (map_of ?R k)),
        children = arrivals (map ?f ?R) k\<rparr>"
      unfolding f1 f2 f3 f4 ER .
    with Some kin show ?thesis by (simp add: tree_of_def)
  qed
  then show "t = tree_of names ?R" by (rule ext)
  from nm show "\<forall>l\<in>set nodes_file. named_record names l" .
  from one show "(1, 1) \<in> set ?E" .
  from ER show "?E = map ?f ?R" .
qed

lemma build_succeeds:
  assumes names: "names_loop Map.empty names_file = Inr names"
    and named: "\<forall>l\<in>set nodes_file. named_record names l"
    and one: "(1, 1) \<in> set (edges nodes_file)"
  shows "\<exists>t. NcbiTaxonomyTree names_file nodes_file = Inr t"
proof -
  from nodes_loop_succeeds [OF names_kept_start named] obtain st where
    st: "nodes_loop (Map.empty, names) nodes_file = Inr st" by blast
  obtain dic rest where p: "st = (dic, rest)" by (cases st)
  from nodes_loop_effect [OF st [unfolded p]]
  have ch: "children_of dic 1 = map fst (filter (\<lambda>r. snd r = 1) (edges nodes_file))"
    by (simp add: children_of_def)
  from one have "(1, 1) \<in> set (filter (\<lambda>r. snd r = 1) (edges nodes_file))" by simp
  then have "fst (1 :: int, 1 :: int) \<in> fst ` set (filter (\<lambda>r. snd r = 1) (edges nodes_file))"
    by (rule imageI)
  with ch have in1: "1 \<in> set (children_of dic 1)" by simp
  then obtain r where r: "dic 1 = Some r" by (cases "dic 1") (simp_all add: children_of_def)
  with in1 have "1 \<in> set (children r)" by (simp add: children_of_def)
  with r have "fix_root dic
      = Inr (dic(1 \<mapsto> r\<lparr>parent := None, children := remove1 1 (children r)\<rparr>))"
    by (simp add: fix_root_def)
  with names st p show ?thesis by (simp add: NcbiTaxonomyTree_def)
qed

lemma mset_map_filter:
  assumes "mset xs = mset ys"
  shows "mset (List.map_filter f xs) = mset (List.map_filter f ys)"
proof -
  have "mset (filter (\<lambda>x. f x \<noteq> None) xs) = mset (filter (\<lambda>x. f x \<noteq> None) ys)"
    unfolding mset_filter assms ..
  then have "mset (map (the \<circ> f) (filter (\<lambda>x. f x \<noteq> None) xs))
      = mset (map (the \<circ> f) (filter (\<lambda>x. f x \<noteq> None) ys))"
    unfolding mset_map by simp
  then show ?thesis by (simp add: map_filter_def)
qed

lemma tree_of_dom: "dom (tree_of names R) = fst ` set R \<union> (fst \<circ> snd) ` set R"
  by (auto simp: tree_of_def dom_def split: if_splits)

lemma tree_of_cong:
  assumes "set R2 = set R1" and "map_of R2 = map_of R1"
    and "arrivals (map (\<lambda>r. (fst r, fst (snd r))) R2) k
       = arrivals (map (\<lambda>r. (fst r, fst (snd r))) R1) k"
  shows "tree_of names R2 k = tree_of names R1 k"
  using assms by (simp add: tree_of_def)

lemma tree_of_fields:
  assumes "tree_of names R k = Some nd"
  shows "name nd = the (names k)" and "rank nd = map_option snd (map_of R k)"
    and "parent nd = (if k = 1 then None else map_option fst (map_of R k))"
    and "children nd = arrivals (map (\<lambda>r. (fst r, fst (snd r))) R) k"
  using assms by (auto simp: tree_of_def split: if_splits)

lemma set_arrivals: "set (arrivals E k) = {c. (c, k) \<in> set E \<and> c \<noteq> 1}"
  by (auto simp: arrivals_def image_iff)

lemma build_siblings_23: "NcbiTaxonomyTree cyc_names [rec_1, rec_2, rec_3] = Inr sib_tree_23"
  unfolding sib_tree_23_def
  by (simp add: cyc_names_def rec_2_def rec_3_def ex_defs build_defs parse_defs) (rule ext, simp)

lemma build_siblings_32: "NcbiTaxonomyTree cyc_names [rec_1, rec_3, rec_2] = Inr sib_tree_32"
  unfolding sib_tree_32_def
  by (simp add: cyc_names_def rec_2_def rec_3_def ex_defs build_defs parse_defs) (rule ext, simp)

lemma ex_edges_sorted:
  "edges [rec_1, rec_543, rec_561, rec_562] = [(1, 1), (543, 1), (561, 543), (562, 561)]"
  by (simp add: edges_def map_filter_simps edge_of_def ex_defs parse_defs)

section \<open>Construction and the order of the edge records\<close>

text \<open>
  Child lists are filled in the order in which the records arrive. Two siblings fed in
  either order give two different dictionaries: the root's child list is \<open>[2, 3]\<close> in
  one and \<open>[3, 2]\<close> in the other. So C1, read as "any order of the records builds the
  same tree mapping", does not hold.
\<close>

theorem sibling_order_changes_the_tree:
  "mset [rec_1, rec_3, rec_2] = mset [rec_1, rec_2, rec_3]
   \<and> NcbiTaxonomyTree cyc_names [rec_1, rec_2, rec_3] = Inr sib_tree_23
   \<and> NcbiTaxonomyTree cyc_names [rec_1, rec_3, rec_2] = Inr sib_tree_32
   \<and> children_of sib_tree_23 1 = [2, 3] \<and> children_of sib_tree_32 1 = [3, 2]
   \<and> sib_tree_23 \<noteq> sib_tree_32"
proof -
  have c: "children_of sib_tree_23 1 = [2, 3]" "children_of sib_tree_32 1 = [3, 2]"
    by (simp_all add: children_of_def sib_tree_23_def sib_tree_32_def)
  have ne: "sib_tree_23 \<noteq> sib_tree_32"
  proof
    assume "sib_tree_23 = sib_tree_32"
    then have "children_of sib_tree_23 1 = children_of sib_tree_32 1" by simp
    with c show False by simp
  qed
  have m: "mset [rec_1, rec_3, rec_2] = mset [rec_1, rec_2, rec_3]" by simp
  from m build_siblings_23 build_siblings_32 c ne show ?thesis by (intro conjI)
qed

text \<open>
  C1, as the code has it. Take an edge stream with at most one record per taxid on which
  the constructor succeeds, and feed the same lines in any other order. The constructor
  succeeds again, in its one pass over the lines: a parent met before its own record
  becomes a placeholder and is completed when the record arrives. The two dictionaries
  have the same keys, and every node has the same name, rank and parent in both; its
  child list holds the same children, in the order in which their records arrive
  (\<open>arrivals\<close>). Hence the dictionaries are equal whenever the children of every node
  arrive in the same relative order, as they do in the example of the claim, where every
  node has at most one child.
\<close>

theorem reordered_records_build_the_same_tree:
  assumes "NcbiTaxonomyTree names_file nodes1 = Inr t"
    and "distinct (map fst (edges nodes1))"
    and "mset nodes2 = mset nodes1"
  shows "\<exists>t2. NcbiTaxonomyTree names_file nodes2 = Inr t2
      \<and> dom t2 = dom t
      \<and> (\<forall>k nd. t k = Some nd \<longrightarrow>
            (\<exists>nd2. t2 k = Some nd2 \<and> name nd2 = name nd \<and> rank nd2 = rank nd
                 \<and> parent nd2 = parent nd
                 \<and> children nd = arrivals (edges nodes1) k
                 \<and> children nd2 = arrivals (edges nodes2) k
                 \<and> set (children nd2) = set (children nd)))
      \<and> ((\<forall>k. arrivals (edges nodes2) k = arrivals (edges nodes1) k) \<longrightarrow> t2 = t)"
proof -
  let ?f = "\<lambda>r :: int \<times> int \<times> string. (fst r, fst (snd r))"
  let ?R1 = "records nodes1" and ?R2 = "records nodes2"
  let ?E1 = "edges nodes1" and ?E2 = "edges nodes2"
  from build_stages_names [OF assms(1)] obtain names where
    names: "names_loop Map.empty names_file = Inr names" by blast
  note b1 = build_tree_of [OF assms(1) names assms(2)]
  from assms(3) have sn: "set nodes2 = set nodes1" by (rule mset_eq_setD)
  from b1(2) sn have named2: "\<forall>l\<in>set nodes2. named_record names l" by simp
  have mE: "mset ?E2 = mset ?E1" unfolding edges_def by (rule mset_map_filter [OF assms(3)])
  then have sE: "set ?E2 = set ?E1" by (rule mset_eq_setD)
  from mE have "mset (map fst ?E2) = mset (map fst ?E1)" by simp
  with assms(2) have d2: "distinct (map fst ?E2)" by (metis mset_eq_imp_distinct_iff)
  from b1(3) sE have one2: "(1, 1) \<in> set ?E2" by simp
  from build_succeeds [OF names named2 one2] obtain t2 where
    t2: "NcbiTaxonomyTree names_file nodes2 = Inr t2" ..
  note b2 = build_tree_of [OF t2 names d2]
  have mR: "mset ?R2 = mset ?R1" unfolding records_def by (rule mset_map_filter [OF assms(3)])
  then have sR: "set ?R2 = set ?R1" by (rule mset_eq_setD)
  have dR1: "distinct (map fst ?R1)" using assms(2) unfolding b1(4) by (simp add: comp_def)
  have dR2: "distinct (map fst ?R2)" using d2 unfolding b2(4) by (simp add: comp_def)
  from dR2 dR1 sR have mo: "map_of ?R2 = map_of ?R1" by (simp add: map_of_inject_set)
  have dm: "dom t2 = dom t" unfolding b1(1) b2(1) tree_of_dom sR ..
  have fields: "\<forall>k nd. t k = Some nd \<longrightarrow>
            (\<exists>nd2. t2 k = Some nd2 \<and> name nd2 = name nd \<and> rank nd2 = rank nd
                 \<and> parent nd2 = parent nd
                 \<and> children nd = arrivals ?E1 k
                 \<and> children nd2 = arrivals ?E2 k
                 \<and> set (children nd2) = set (children nd))"
  proof (intro allI impI)
    fix k nd assume nd: "t k = Some nd"
    then have "k \<in> dom t2" unfolding dm by (rule domI)
    then obtain nd2 where nd2: "t2 k = Some nd2" by (auto simp: dom_def)
    from nd have n1: "tree_of names ?R1 k = Some nd" unfolding b1(1) [symmetric] .
    from nd2 have n2: "tree_of names ?R2 k = Some nd2" unfolding b2(1) [symmetric] .
    note f1 = tree_of_fields [OF n1] and f2 = tree_of_fields [OF n2]
    have c1: "children nd = arrivals ?E1 k" unfolding f1(4) b1(4) ..
    have c2: "children nd2 = arrivals ?E2 k" unfolding f2(4) b2(4) ..
    have "set (children nd2) = set (children nd)" unfolding c1 c2 set_arrivals sE ..
    with nd2 f1(1-3) f2(1-3) mo c1 c2
    have "t2 k = Some nd2 \<and> name nd2 = name nd \<and> rank nd2 = rank nd
                 \<and> parent nd2 = parent nd
                 \<and> children nd = arrivals ?E1 k
                 \<and> children nd2 = arrivals ?E2 k
                 \<and> set (children nd2) = set (children nd)"
      by simp
    then show "\<exists>nd2. t2 k = Some nd2 \<and> name nd2 = name nd \<and> rank nd2 = rank nd
                 \<and> parent nd2 = parent nd
                 \<and> children nd = arrivals ?E1 k
                 \<and> children nd2 = arrivals ?E2 k
                 \<and> set (children nd2) = set (children nd)"
      by (rule exI)
  qed
  have same: "(\<forall>k. arrivals ?E2 k = arrivals ?E1 k) \<longrightarrow> t2 = t"
  proof
    assume a: "\<forall>k. arrivals ?E2 k = arrivals ?E1 k"
    have "tree_of names ?R2 k = tree_of names ?R1 k" for k
    proof (rule tree_of_cong [OF sR mo])
      from a show "arrivals (map ?f ?R2) k = arrivals (map ?f ?R1) k"
        unfolding b1(4) [symmetric] b2(4) [symmetric] by simp
    qed
    then have "tree_of names ?R2 = tree_of names ?R1" by (rule ext)
    then show "t2 = t" unfolding b1(1) b2(1) .
  qed
  from t2 dm fields same
  have "NcbiTaxonomyTree names_file nodes2 = Inr t2
      \<and> dom t2 = dom t
      \<and> (\<forall>k nd. t k = Some nd \<longrightarrow>
            (\<exists>nd2. t2 k = Some nd2 \<and> name nd2 = name nd \<and> rank nd2 = rank nd
                 \<and> parent nd2 = parent nd
                 \<and> children nd = arrivals ?E1 k
                 \<and> children nd2 = arrivals ?E2 k
                 \<and> set (children nd2) = set (children nd)))
      \<and> ((\<forall>k. arrivals ?E2 k = arrivals ?E1 k) \<longrightarrow> t2 = t)"
    by (intro conjI)
  then show ?thesis by (rule exI [of _ t2])
qed


theorem reordered_records_witness:
  "NcbiTaxonomyTree ex_names [rec_1, rec_543, rec_561, rec_562] = Inr ex_tree
   \<and> distinct (map fst (edges [rec_1, rec_543, rec_561, rec_562]))
   \<and> mset [rec_561, rec_543, rec_562, rec_1] = mset [rec_1, rec_543, rec_561, rec_562]
   \<and> (\<forall>k. arrivals (edges [rec_561, rec_543, rec_562, rec_1]) k
          = arrivals (edges [rec_1, rec_543, rec_561, rec_562]) k)
   \<and> NcbiTaxonomyTree ex_names [rec_561, rec_543, rec_562, rec_1] = Inr ex_tree"
proof -
  have d: "distinct (map fst (edges [rec_1, rec_543, rec_561, rec_562]))"
    by (simp add: ex_edges_sorted)
  have m: "mset [rec_561, rec_543, rec_562, rec_1] = mset [rec_1, rec_543, rec_561, rec_562]"
    by simp
  have a: "\<forall>k. arrivals (edges [rec_561, rec_543, rec_562, rec_1]) k
          = arrivals (edges [rec_1, rec_543, rec_561, rec_562]) k"
    by (simp add: ex_edges ex_edges_sorted arrivals_def)
  from reordered_records_build_the_same_tree [OF build_sorted d m] obtain t2 where
    "NcbiTaxonomyTree ex_names [rec_561, rec_543, rec_562, rec_1] = Inr t2"
    "(\<forall>k. arrivals (edges [rec_561, rec_543, rec_562, rec_1]) k
          = arrivals (edges [rec_1, rec_543, rec_561, rec_562]) k) \<longrightarrow> t2 = ex_tree"
    by (elim exE conjE)
  with a have "NcbiTaxonomyTree ex_names [rec_561, rec_543, rec_562, rec_1] = Inr ex_tree"
    by simp
  with build_sorted d m a show ?thesis by (intro conjI)
qed

lemma ascend_extends:
  assumes "ascend dic taxid acc = Some y"
  shows "\<forall>lineage. y = Inr lineage \<longrightarrow> (\<exists>rest. lineage = acc @ rest)"
  using assms
proof (rule ascend.raw_induct
    [rotated, where P = "\<lambda>d t l r. \<forall>lineage. r = Inr lineage \<longrightarrow> (\<exists>rest. lineage = l @ rest)"])
  fix f :: "dic \<Rightarrow> int \<Rightarrow> level list \<Rightarrow> (error + level list) option"
    and d t l r
  assume IH: "\<And>d t l r. f d t l = Some r \<Longrightarrow>
      \<forall>lineage. r = Inr lineage \<longrightarrow> (\<exists>rest. lineage = l @ rest)"
  assume body:
    "(case d t of
        None \<Rightarrow> Some (Inl (KeyError t))
      | Some nd \<Rightarrow>
          (case parent nd of
             None \<Rightarrow> Some (Inr l)
           | Some p \<Rightarrow>
               (case d p of
                  None \<Rightarrow> Some (Inl (KeyError p))
                | Some pn \<Rightarrow> f d p (l @ [(p, rank pn, name pn)])))) = Some r"
  show "\<forall>lineage. r = Inr lineage \<longrightarrow> (\<exists>rest. lineage = l @ rest)"
  proof (cases "d t")
    case None
    with body show ?thesis by auto
  next
    case nd: (Some nd)
    show ?thesis
    proof (cases "parent nd")
      case None
      with nd body show ?thesis by auto
    next
      case p: (Some p)
      show ?thesis
      proof (cases "d p")
        case None
        with nd p body show ?thesis by auto
      next
        case (Some pn)
        with nd p body have "f d p (l @ [(p, rank pn, name pn)]) = Some r" by simp
        from IH [OF this] show ?thesis by (metis append.assoc)
      qed
    qed
  qed
qed

lemma priv_ascendants_outcomes:
  assumes "dic taxid = Some nd"
  shows "(priv_getAscendantsWithRanksAndNames dic taxid False = None
          \<and> priv_getAscendantsWithRanksAndNames dic taxid True = None)
       \<or> (\<exists>e. priv_getAscendantsWithRanksAndNames dic taxid False = Some (Inl e)
              \<and> priv_getAscendantsWithRanksAndNames dic taxid True = Some (Inl e))
       \<or> (\<exists>rest. priv_getAscendantsWithRanksAndNames dic taxid False
                    = Some (Inr ((taxid, rank nd, name nd) # rest))
              \<and> priv_getAscendantsWithRanksAndNames dic taxid True
                    = Some (std_only ((taxid, rank nd, name nd) # rest)))"
proof (cases "ascend dic taxid [(taxid, rank nd, name nd)]")
  case None
  with assms show ?thesis by (simp add: priv_getAscendantsWithRanksAndNames_def)
next
  case (Some y)
  show ?thesis
  proof (cases y)
    case (Inl e)
    with Some assms show ?thesis by (simp add: priv_getAscendantsWithRanksAndNames_def)
  next
    case (Inr lineage)
    with ascend_extends [OF Some] obtain rest where
      "lineage = [(taxid, rank nd, name nd)] @ rest" by blast
    with Some Inr assms have
      "priv_getAscendantsWithRanksAndNames dic taxid False
          = Some (Inr ((taxid, rank nd, name nd) # rest))
       \<and> priv_getAscendantsWithRanksAndNames dic taxid True
          = Some (std_only ((taxid, rank nd, name nd) # rest))"
      by (simp add: priv_getAscendantsWithRanksAndNames_def)
    then show ?thesis by blast
  qed
qed

lemma ex_root_lineage_returns:
  "\<exists>m. getAscendantsWithRanksAndNames ex_tree [1] False = Some (Inr m)"
  by (simp add: query_eval ex_tree_def)

lemma ph_lineage_returns:
  "\<exists>m. getAscendantsWithRanksAndNames ph_tree [2] False = Some (Inr m)"
  by (simp add: query_eval ph_tree_def)

section \<open>Ascendants restricted to the standard ranks\<close>

text \<open>
  C3. For every taxid present in the dictionary, whatever the dictionary is, the call with
  \<open>only_std_ranks\<close> set ends as the call without it does: it never returns when that one
  never returns, it raises the same exception when that one raises, and when that one
  returns a lineage it returns the entries of that lineage whose rank is one of the seven
  \<open>standard_ranks\<close>, with the queried node (the first entry of the unfiltered lineage) put
  in front of them when its rank is \<open>no rank\<close>. So every entry of a returned result has a
  standard rank, except a first entry of rank \<open>no rank\<close>.
\<close>

theorem only_std_ranks_filter:
  assumes "dic taxid = Some nd"
  shows "(getAscendantsWithRanksAndNames dic [taxid] False = None
          \<and> getAscendantsWithRanksAndNames dic [taxid] True = None)
       \<or> (\<exists>e. getAscendantsWithRanksAndNames dic [taxid] False = Some (Inl e)
              \<and> getAscendantsWithRanksAndNames dic [taxid] True = Some (Inl e))
       \<or> (\<exists>lineage result.
              getAscendantsWithRanksAndNames dic [taxid] False = Some (Inr [taxid \<mapsto> lineage])
            \<and> getAscendantsWithRanksAndNames dic [taxid] True = Some (Inr [taxid \<mapsto> result])
            \<and> hd lineage = (taxid, rank nd, name nd)
            \<and> (if rank nd = Some ''no rank''
                then result = hd lineage # filter is_std lineage
                     \<and> (\<forall>lvl\<in>set (tl result). fst (snd lvl) \<in> Some ` set standard_ranks)
                else result = filter is_std lineage
                     \<and> (\<forall>lvl\<in>set result. fst (snd lvl) \<in> Some ` set standard_ranks)))"
proof -
  let ?l0 = "(taxid, rank nd, name nd)"
  note o = priv_ascendants_outcomes [of dic taxid nd, OF assms]
  from o show ?thesis
  proof (elim disjE exE conjE)
    assume never: "priv_getAscendantsWithRanksAndNames dic taxid False = None"
      "priv_getAscendantsWithRanksAndNames dic taxid True = None"
    from never have "getAscendantsWithRanksAndNames dic [taxid] False = None
          \<and> getAscendantsWithRanksAndNames dic [taxid] True = None"
      by (simp add: getAscendantsWithRanksAndNames_def)
    then show ?thesis by (rule disjI1)
  next
    fix e
    assume raises: "priv_getAscendantsWithRanksAndNames dic taxid False = Some (Inl e)"
      "priv_getAscendantsWithRanksAndNames dic taxid True = Some (Inl e)"
    then have "getAscendantsWithRanksAndNames dic [taxid] False = Some (Inl e)
              \<and> getAscendantsWithRanksAndNames dic [taxid] True = Some (Inl e)"
      by (simp add: getAscendantsWithRanksAndNames_def)
    then have "\<exists>e. getAscendantsWithRanksAndNames dic [taxid] False = Some (Inl e)
              \<and> getAscendantsWithRanksAndNames dic [taxid] True = Some (Inl e)"
      by (rule exI)
    then show ?thesis by (intro disjI2 disjI1)
  next
    fix rest
    assume returns:
      "priv_getAscendantsWithRanksAndNames dic taxid False = Some (Inr (?l0 # rest))"
      "priv_getAscendantsWithRanksAndNames dic taxid True = Some (std_only (?l0 # rest))"
    let ?lineage = "?l0 # rest"
    let ?result = "if rank nd = Some ''no rank'' then ?l0 # filter is_std ?lineage
                   else filter is_std ?lineage"
    have std: "\<forall>lvl\<in>set (filter is_std ?lineage). fst (snd lvl) \<in> Some ` set standard_ranks"
      by (simp add: is_std_iff)
    from returns(1) have a: "getAscendantsWithRanksAndNames dic [taxid] False
        = Some (Inr [taxid \<mapsto> ?lineage])"
      by (simp add: getAscendantsWithRanksAndNames_def)
    from returns(2) have b: "getAscendantsWithRanksAndNames dic [taxid] True
        = Some (Inr [taxid \<mapsto> ?result])"
      by (simp add: getAscendantsWithRanksAndNames_def std_only_Cons)
    have c: "hd ?lineage = ?l0" by simp
    have d: "if rank nd = Some ''no rank''
          then ?result = hd ?lineage # filter is_std ?lineage
               \<and> (\<forall>lvl\<in>set (tl ?result). fst (snd lvl) \<in> Some ` set standard_ranks)
          else ?result = filter is_std ?lineage
               \<and> (\<forall>lvl\<in>set ?result. fst (snd lvl) \<in> Some ` set standard_ranks)"
    proof (cases "rank nd = Some ''no rank''")
      case True
      with std show ?thesis by simp
    next
      case False
      with std show ?thesis by simp
    qed
    have "\<exists>lineage result.
              getAscendantsWithRanksAndNames dic [taxid] False = Some (Inr [taxid \<mapsto> lineage])
            \<and> getAscendantsWithRanksAndNames dic [taxid] True = Some (Inr [taxid \<mapsto> result])
            \<and> hd lineage = (taxid, rank nd, name nd)
            \<and> (if rank nd = Some ''no rank''
                then result = hd lineage # filter is_std lineage
                     \<and> (\<forall>lvl\<in>set (tl result). fst (snd lvl) \<in> Some ` set standard_ranks)
                else result = filter is_std lineage
                     \<and> (\<forall>lvl\<in>set result. fst (snd lvl) \<in> Some ` set standard_ranks))"
      by (rule exI [where x = ?lineage], rule exI [where x = ?result]) (intro conjI a b c d)
    then show ?thesis by (intro disjI2)
  qed
qed


theorem only_std_ranks_witness:
  "(\<exists>lineage result.
        getAscendantsWithRanksAndNames ex_tree [1] False = Some (Inr [1 \<mapsto> lineage])
      \<and> getAscendantsWithRanksAndNames ex_tree [1] True = Some (Inr [1 \<mapsto> result])
      \<and> hd lineage = (1, Some ''no rank'', ''root'')
      \<and> result = hd lineage # filter is_std lineage)
   \<and> is_root ph_tree 1 \<and> is_root ph_tree 3
   \<and> (\<exists>lineage result.
        getAscendantsWithRanksAndNames ph_tree [2] False = Some (Inr [2 \<mapsto> lineage])
      \<and> getAscendantsWithRanksAndNames ph_tree [2] True = Some (Inr [2 \<mapsto> result])
      \<and> hd lineage = (2, Some ''genus'', ''two'')
      \<and> result = filter is_std lineage)"
proof -
  have n1: "ex_tree 1 = Some \<lparr>name = ''root'', rank = Some ''no rank'', parent = None,
      children = [543]\<rparr>"
    by (simp add: ex_tree_def)
  have n2: "ph_tree 2 = Some \<lparr>name = ''two'', rank = Some ''genus'', parent = Some 3,
      children = []\<rparr>"
    by (simp add: ph_tree_def)
  from only_std_ranks_filter [of ex_tree 1, OF n1]
  have "\<exists>lineage result.
        getAscendantsWithRanksAndNames ex_tree [1] False = Some (Inr [1 \<mapsto> lineage])
      \<and> getAscendantsWithRanksAndNames ex_tree [1] True = Some (Inr [1 \<mapsto> result])
      \<and> hd lineage = (1, Some ''no rank'', ''root'')
      \<and> result = hd lineage # filter is_std lineage
      \<and> (\<forall>lvl\<in>set (tl result). fst (snd lvl) \<in> Some ` set standard_ranks)"
  proof (elim disjE)
    assume "getAscendantsWithRanksAndNames ex_tree [1] False = None
          \<and> getAscendantsWithRanksAndNames ex_tree [1] True = None"
    with ex_root_lineage_returns show ?thesis by simp
  next
    assume "\<exists>e. getAscendantsWithRanksAndNames ex_tree [1] False = Some (Inl e)
              \<and> getAscendantsWithRanksAndNames ex_tree [1] True = Some (Inl e)"
    then obtain e where "getAscendantsWithRanksAndNames ex_tree [1] False = Some (Inl e)"
      by (elim exE conjE)
    with ex_root_lineage_returns show ?thesis by simp
  next
    assume "\<exists>lineage result.
              getAscendantsWithRanksAndNames ex_tree [1] False = Some (Inr [1 \<mapsto> lineage])
            \<and> getAscendantsWithRanksAndNames ex_tree [1] True = Some (Inr [1 \<mapsto> result])
            \<and> hd lineage = (1, rank \<lparr>name = ''root'', rank = Some ''no rank'', parent = None,
                  children = [543]\<rparr>, name \<lparr>name = ''root'', rank = Some ''no rank'',
                  parent = None, children = [543]\<rparr>)
            \<and> (if rank \<lparr>name = ''root'', rank = Some ''no rank'', parent = None,
                  children = [543]\<rparr> = Some ''no rank''
                then result = hd lineage # filter is_std lineage
                     \<and> (\<forall>lvl\<in>set (tl result). fst (snd lvl) \<in> Some ` set standard_ranks)
                else result = filter is_std lineage
                     \<and> (\<forall>lvl\<in>set result. fst (snd lvl) \<in> Some ` set standard_ranks))"
    then show ?thesis by simp
  qed
  then obtain l1 r1 where
    "getAscendantsWithRanksAndNames ex_tree [1] False = Some (Inr [1 \<mapsto> l1])"
    "getAscendantsWithRanksAndNames ex_tree [1] True = Some (Inr [1 \<mapsto> r1])"
    "hd l1 = (1, Some ''no rank'', ''root'')"
    "r1 = hd l1 # filter is_std l1"
    by (elim exE conjE)
  then have "getAscendantsWithRanksAndNames ex_tree [1] False = Some (Inr [1 \<mapsto> l1])
      \<and> getAscendantsWithRanksAndNames ex_tree [1] True = Some (Inr [1 \<mapsto> r1])
      \<and> hd l1 = (1, Some ''no rank'', ''root'')
      \<and> r1 = hd l1 # filter is_std l1"
    by (intro conjI)
  then have a: "\<exists>lineage result.
        getAscendantsWithRanksAndNames ex_tree [1] False = Some (Inr [1 \<mapsto> lineage])
      \<and> getAscendantsWithRanksAndNames ex_tree [1] True = Some (Inr [1 \<mapsto> result])
      \<and> hd lineage = (1, Some ''no rank'', ''root'')
      \<and> result = hd lineage # filter is_std lineage"
    by (intro exI)
  from only_std_ranks_filter [of ph_tree 2, OF n2]
  have "\<exists>lineage result.
        getAscendantsWithRanksAndNames ph_tree [2] False = Some (Inr [2 \<mapsto> lineage])
      \<and> getAscendantsWithRanksAndNames ph_tree [2] True = Some (Inr [2 \<mapsto> result])
      \<and> hd lineage = (2, Some ''genus'', ''two'')
      \<and> result = filter is_std lineage
      \<and> (\<forall>lvl\<in>set result. fst (snd lvl) \<in> Some ` set standard_ranks)"
  proof (elim disjE)
    assume "getAscendantsWithRanksAndNames ph_tree [2] False = None
          \<and> getAscendantsWithRanksAndNames ph_tree [2] True = None"
    with ph_lineage_returns show ?thesis by simp
  next
    assume "\<exists>e. getAscendantsWithRanksAndNames ph_tree [2] False = Some (Inl e)
              \<and> getAscendantsWithRanksAndNames ph_tree [2] True = Some (Inl e)"
    then obtain e where "getAscendantsWithRanksAndNames ph_tree [2] False = Some (Inl e)"
      by (elim exE conjE)
    with ph_lineage_returns show ?thesis by simp
  next
    assume "\<exists>lineage result.
              getAscendantsWithRanksAndNames ph_tree [2] False = Some (Inr [2 \<mapsto> lineage])
            \<and> getAscendantsWithRanksAndNames ph_tree [2] True = Some (Inr [2 \<mapsto> result])
            \<and> hd lineage = (2, rank \<lparr>name = ''two'', rank = Some ''genus'', parent = Some 3,
                  children = []\<rparr>, name \<lparr>name = ''two'', rank = Some ''genus'',
                  parent = Some 3, children = []\<rparr>)
            \<and> (if rank \<lparr>name = ''two'', rank = Some ''genus'', parent = Some 3,
                  children = []\<rparr> = Some ''no rank''
                then result = hd lineage # filter is_std lineage
                     \<and> (\<forall>lvl\<in>set (tl result). fst (snd lvl) \<in> Some ` set standard_ranks)
                else result = filter is_std lineage
                     \<and> (\<forall>lvl\<in>set result. fst (snd lvl) \<in> Some ` set standard_ranks))"
    then show ?thesis by simp
  qed
  then obtain l2 r2 where
    "getAscendantsWithRanksAndNames ph_tree [2] False = Some (Inr [2 \<mapsto> l2])"
    "getAscendantsWithRanksAndNames ph_tree [2] True = Some (Inr [2 \<mapsto> r2])"
    "hd l2 = (2, Some ''genus'', ''two'')"
    "r2 = filter is_std l2"
    by (elim exE conjE)
  then have "getAscendantsWithRanksAndNames ph_tree [2] False = Some (Inr [2 \<mapsto> l2])
      \<and> getAscendantsWithRanksAndNames ph_tree [2] True = Some (Inr [2 \<mapsto> r2])
      \<and> hd l2 = (2, Some ''genus'', ''two'')
      \<and> r2 = filter is_std l2"
    by (intro conjI)
  then have b: "\<exists>lineage result.
        getAscendantsWithRanksAndNames ph_tree [2] False = Some (Inr [2 \<mapsto> lineage])
      \<and> getAscendantsWithRanksAndNames ph_tree [2] True = Some (Inr [2 \<mapsto> result])
      \<and> hd lineage = (2, Some ''genus'', ''two'')
      \<and> result = filter is_std lineage"
    by (intro exI)
  have r: "is_root ph_tree 1" "is_root ph_tree 3" by (simp_all add: is_root_def ph_tree_def)
  from a r b show ?thesis by (intro conjI)
qed





section \<open>Duplicate taxids in a batch\<close>




end
